theory Spec2Isabelle
  imports Main "HOL-Library.Word"
begin

unbundle bit_operations_syntax

section \<open>The SSA-based register allocator of the AGX compiler\<close>

text \<open>
  A shallow embedding of \<^verbatim>\<open>src/asahi/compiler/agx_register_allocate.c\<close>.
  Registers, SSA indices and counts are natural numbers; where the C code computes
  in \<^verbatim>\<open>unsigned\<close>, \<^verbatim>\<open>uint16_t\<close> or \<^verbatim>\<open>uint8_t\<close> and the result can wrap,
  the wrap-around is written out (or the value is a \<open>32 word\<close>). A bitset is the set of
  its set bits. Every \<^verbatim>\<open>assert\<close> and \<^verbatim>\<open>unreachable\<close> of the source is a branch
  that returns an error carrying the source's message; \<open>Undefined\<close> marks an operation
  C leaves undefined (a division by zero).
\<close>

subsection \<open>Data model\<close>

datatype ra_class = RA_GPR | RA_MEM

datatype ra_error = Assertion string | Unreachable string | Undefined string

datatype agx_size = AGX_SIZE_16 | AGX_SIZE_32 | AGX_SIZE_64

datatype agx_index_type =
  AGX_INDEX_NULL | AGX_INDEX_NORMAL | AGX_INDEX_IMMEDIATE
  | AGX_INDEX_UNIFORM | AGX_INDEX_REGISTER | AGX_INDEX_UNDEF

text \<open>
  An operand (\<^verbatim>\<open>agx_index\<close>): for an SSA operand \<open>idx_value\<close> is the SSA index, for a
  register operand the register in 16-bit units. \<open>idx_channels\<close> is what
  \<^verbatim>\<open>agx_channels\<close> returns for the operand.
\<close>

record agx_index =
  idx_type :: agx_index_type
  idx_value :: nat
  idx_size :: agx_size
  idx_channels :: nat
  idx_memory :: bool
  idx_kill :: bool

datatype agx_opcode =
  AGX_OPCODE_PHI | AGX_OPCODE_COLLECT | AGX_OPCODE_SPLIT | AGX_OPCODE_PRELOAD
  | AGX_OPCODE_MOV | AGX_OPCODE_OTHER nat

record agx_instr =
  op :: agx_opcode
  dest :: "agx_index list"
  src :: "agx_index list"

definition ra_class_for_index :: "agx_index \<Rightarrow> ra_class" where
  "ra_class_for_index idx = (if idx_memory idx then RA_MEM else RA_GPR)"

text \<open>
  The operand helpers of \<^verbatim>\<open>agx_compiler.h\<close>, which the allocator uses throughout:
  the alignment of a scalar size in 16-bit units, the size of an operand in 16-bit
  units, and the equivalence of two operands (same kind, same value).
\<close>

fun agx_size_align_16 :: "agx_size \<Rightarrow> nat" where
  "agx_size_align_16 AGX_SIZE_16 = 1"
| "agx_size_align_16 AGX_SIZE_32 = 2"
| "agx_size_align_16 AGX_SIZE_64 = 4"

definition agx_index_size_16 :: "agx_index \<Rightarrow> nat" where
  "agx_index_size_16 idx = agx_size_align_16 (idx_size idx) * idx_channels idx"

definition agx_is_equiv :: "agx_index \<Rightarrow> agx_index \<Rightarrow> bool" where
  "agx_is_equiv l r \<longleftrightarrow> idx_type l = idx_type r \<and> idx_value l = idx_value r"


text \<open>\<^verbatim>\<open>agx_foreach_ssa_dest\<close> and \<^verbatim>\<open>agx_foreach_ssa_src\<close> visit the SSA operands.\<close>

definition is_ssa :: "agx_index \<Rightarrow> bool" where
  "is_ssa idx \<longleftrightarrow> idx_type idx = AGX_INDEX_NORMAL"

definition ssa_dests :: "agx_instr \<Rightarrow> agx_index list" where
  "ssa_dests I = filter is_ssa (dest I)"

definition ssa_srcs :: "agx_instr \<Rightarrow> agx_index list" where
  "ssa_srcs I = filter is_ssa (src I)"

text \<open>
  \<^verbatim>\<open>util_next_power_of_two\<close>: the least power of two that is at least \<open>x\<close>, and 1
  for 0.
\<close>

function npot_from :: "nat \<Rightarrow> nat \<Rightarrow> nat" where
  "npot_from p x = (if p = 0 \<or> x \<le> p then p else npot_from (2 * p) x)"
  by pat_completeness auto
termination
  by (relation "measure (\<lambda>(p, x). x - p)") auto

declare npot_from.simps [simp del]

lemma npot_from_ge: "p \<le> npot_from p x"
proof (induction p x rule: npot_from.induct)
  case (1 p x)
  show ?case
  proof (cases "p = 0 \<or> x \<le> p")
    case True then show ?thesis by (subst npot_from.simps) simp
  next
    case False
    with 1 have "2 * p \<le> npot_from (2 * p) x" by blast
    moreover have "npot_from p x = npot_from (2 * p) x"
      using False by (subst npot_from.simps) simp
    ultimately show ?thesis by simp
  qed
qed

lemma npot_from_fix: "npot_from p (npot_from p x) = npot_from p x"
proof (induction p x rule: npot_from.induct)
  case (1 p x)
  show ?case
  proof (cases "p = 0 \<or> x \<le> p")
    case True
    then have "npot_from p x = p" by (subst npot_from.simps) simp
    moreover have "npot_from p p = p" by (subst npot_from.simps) simp
    ultimately show ?thesis by simp
  next
    case False
    let ?q = "npot_from (2 * p) x"
    have q: "npot_from p x = ?q" using False by (subst npot_from.simps) simp
    have ih: "npot_from (2 * p) ?q = ?q" using 1 False by blast
    have "2 * p \<le> ?q" by (rule npot_from_ge)
    with False have "\<not> (p = 0 \<or> ?q \<le> p)" by simp
    then have "npot_from p ?q = npot_from (2 * p) ?q"
      by (subst npot_from.simps) simp
    with ih q show ?thesis by simp
  qed
qed

definition util_next_power_of_two :: "nat \<Rightarrow> nat" where
  "util_next_power_of_two x = npot_from 1 x"

lemma util_next_power_of_two_idem:
  "util_next_power_of_two (util_next_power_of_two x) = util_next_power_of_two x"
  by (simp add: util_next_power_of_two_def npot_from_fix)

lemma util_next_power_of_two_pos: "0 < util_next_power_of_two x"
  using npot_from_ge[of 1 x] by (simp add: util_next_power_of_two_def)

text \<open>Sequencing a loop body that can fail over the elements it visits.\<close>

fun fold_err :: "('a \<Rightarrow> 's \<Rightarrow> 'e + 's) \<Rightarrow> 'a list \<Rightarrow> 's \<Rightarrow> 'e + 's" where
  "fold_err f [] s = Inr s"
| "fold_err f (x # xs) s =
     (case f x s of Inl e \<Rightarrow> Inl e | Inr s' \<Rightarrow> fold_err f xs s')"

lemma fold_err_append:
  "fold_err f (xs @ ys) s =
     (case fold_err f xs s of Inl e \<Rightarrow> Inl e | Inr s' \<Rightarrow> fold_err f ys s')"
  by (induction xs arbitrary: s) (auto split: sum.splits)

subsection \<open>Bitsets\<close>

text \<open>
  \<^verbatim>\<open>BITSET_TEST_RANGE(x, b, e)\<close> is true when some bit of \<open>b..e\<close> is set;
  \<^verbatim>\<open>BITSET_SET_RANGE\<close> and \<^verbatim>\<open>BITSET_CLEAR_RANGE\<close> set and clear the bits \<open>b..e\<close>.
  The callers pass \<open>e = b + count - 1\<close>, so the ranges below are given by their first
  bit and their length.
\<close>

definition bitset_test_range :: "nat set \<Rightarrow> nat \<Rightarrow> nat \<Rightarrow> bool" where
  "bitset_test_range x b n \<longleftrightarrow> list_ex (\<lambda>r. r \<in> x) [b..<b + n]"

definition bitset_set_range :: "nat set \<Rightarrow> nat \<Rightarrow> nat \<Rightarrow> nat set" where
  "bitset_set_range x b n = x \<union> set [b..<b + n]"

definition bitset_clear_range :: "nat set \<Rightarrow> nat \<Rightarrow> nat \<Rightarrow> nat set" where
  "bitset_clear_range x b n = x - set [b..<b + n]"

subsection \<open>The allocation context\<close>

text \<open>
  \<^verbatim>\<open>struct ra_ctx\<close>. The arrays are functions from the index; \<open>max_reg\<close> holds the
  two counters the context points to (\<^verbatim>\<open>ctx->max_reg\<close> and the driver's
  \<^verbatim>\<open>max_mem_slot\<close>); \<open>any_cf\<close> is \<^verbatim>\<open>rctx->shader->any_cf\<close>.
\<close>

record ra_ctx =
  ssa_to_reg :: "nat \<Rightarrow> nat"
  ncomps :: "nat \<Rightarrow> nat"
  sizes :: "nat \<Rightarrow> agx_size"
  classes :: "nat \<Rightarrow> ra_class"
  visited :: "nat set"
  used_regs :: "ra_class \<Rightarrow> nat set"
  max_reg :: "ra_class \<Rightarrow> nat"
  reg_to_ssa :: "nat \<Rightarrow> nat"
  bound :: "ra_class \<Rightarrow> nat"
  any_cf :: bool

text \<open>
  \<^verbatim>\<open>set_ssa_to_reg\<close>: the high-water mark is computed in \<^verbatim>\<open>unsigned\<close>
  (\<open>reg + ncomps - 1\<close> wraps when \<open>ncomps = 0\<close> and \<open>reg = 0\<close>), the register is stored
  in a \<^verbatim>\<open>uint16_t\<close>.
\<close>

definition set_ssa_to_reg :: "ra_ctx \<Rightarrow> nat \<Rightarrow> nat \<Rightarrow> ra_ctx" where
  "set_ssa_to_reg rctx ssa reg =
     (let cls = classes rctx ssa in
      rctx\<lparr> max_reg := (max_reg rctx)
               (cls := max (max_reg rctx cls)
                           ((reg + ncomps rctx ssa + (2 ^ 32 - 1)) mod 2 ^ 32)),
            ssa_to_reg := (ssa_to_reg rctx)(ssa := reg mod 2 ^ 16) \<rparr>)"

lemma set_ssa_to_reg_fields [simp]:
  "ncomps (set_ssa_to_reg rctx ssa reg) = ncomps rctx"
  "classes (set_ssa_to_reg rctx ssa reg) = classes rctx"
  "sizes (set_ssa_to_reg rctx ssa reg) = sizes rctx"
  "used_regs (set_ssa_to_reg rctx ssa reg) = used_regs rctx"
  "bound (set_ssa_to_reg rctx ssa reg) = bound rctx"
  "visited (set_ssa_to_reg rctx ssa reg) = visited rctx"
  "reg_to_ssa (set_ssa_to_reg rctx ssa reg) = reg_to_ssa rctx"
  "any_cf (set_ssa_to_reg rctx ssa reg) = any_cf rctx"
  by (simp_all add: set_ssa_to_reg_def Let_def)


text \<open>A small context for the concrete runs below: sixteen registers, scalar values.\<close>

definition ex_rctx :: ra_ctx where
  "ex_rctx = \<lparr> ssa_to_reg = (\<lambda>_. 0), ncomps = (\<lambda>_. 1), sizes = (\<lambda>_. AGX_SIZE_16),
               classes = (\<lambda>_. RA_GPR), visited = {}, used_regs = (\<lambda>_. {}),
               max_reg = (\<lambda>_. 0), reg_to_ssa = (\<lambda>_. 0), bound = (\<lambda>_. 16),
               any_cf = False \<rparr>"

section \<open>Register demand\<close>

text \<open>
  The program as the demand calculation reads it: the blocks in program order, each with
  its instructions and its live-in bitset; \<open>alloc\<close> is the number of SSA indices and
  \<open>ctx_any_cf\<close> is \<^verbatim>\<open>ctx->any_cf\<close>.
\<close>

record agx_block =
  instructions :: "agx_instr list"
  live_in :: "nat set"

record agx_context =
  blocks :: "agx_block list"
  alloc :: nat
  ctx_any_cf :: bool

definition all_instrs :: "agx_context \<Rightarrow> agx_instr list" where
  "all_instrs ctx = concat (map instructions (blocks ctx))"

definition all_ssa_dests :: "agx_context \<Rightarrow> agx_index list" where
  "all_ssa_dests ctx = concat (map ssa_dests (all_instrs ctx))"

text \<open>
  The first loop of \<^verbatim>\<open>agx_calc_register_demand\<close>: widths (a \<^verbatim>\<open>uint8_t\<close> array) and
  classes of the SSA values, both zero-initialised.
\<close>

definition gather_width ::
  "agx_index \<Rightarrow> (nat \<Rightarrow> nat) \<times> (nat \<Rightarrow> ra_class) \<Rightarrow> ra_error + (nat \<Rightarrow> nat) \<times> (nat \<Rightarrow> ra_class)"
where
  "gather_width d wc =
     (let v = idx_value d in
      if fst wc v \<noteq> 0 then Inl (Assertion ''broken SSA'')
      else Inr ((fst wc)(v := util_next_power_of_two (agx_index_size_16 d) mod 256),
                (snd wc)(v := ra_class_for_index d)))"

definition gather_widths ::
  "agx_context \<Rightarrow> ra_error + (nat \<Rightarrow> nat) \<times> (nat \<Rightarrow> ra_class)" where
  "gather_widths ctx = fold_err gather_width (all_ssa_dests ctx) (\<lambda>_. 0, \<lambda>_. RA_GPR)"

text \<open>The demand is an \<^verbatim>\<open>unsigned\<close>: subtraction below zero wraps.\<close>

definition demand_kill_src ::
  "(nat \<Rightarrow> nat) \<Rightarrow> agx_instr \<Rightarrow> nat \<Rightarrow> 32 word \<Rightarrow> ra_error + 32 word" where
  "demand_kill_src widths I s demand =
     (let x = src I ! s in
      if \<not> idx_kill x then Inr demand
      else if idx_type x \<noteq> AGX_INDEX_NORMAL
        then Inl (Assertion ''I->src[s].type == AGX_INDEX_NORMAL'')
      else if ra_class_for_index x \<noteq> RA_GPR then Inr demand
      else if list_ex (\<lambda>b. agx_is_equiv b x) (take s (src I)) then Inr demand
      else Inr (demand - of_nat (widths (idx_value x))))"

definition demand_def_dest ::
  "(nat \<Rightarrow> nat) \<Rightarrow> agx_index \<Rightarrow> 32 word \<times> 32 word \<Rightarrow> 32 word \<times> 32 word" where
  "demand_def_dest widths d dl =
     (if ra_class_for_index d \<noteq> RA_GPR then dl
      else let real_width = widths (idx_value d);
               pot_width = util_next_power_of_two real_width
           in (fst dl + of_nat pot_width, snd dl + (of_nat pot_width - of_nat real_width)))"

text \<open>One instruction of the walk; the state is (demand, late-kill count, maximum).\<close>

definition demand_instr ::
  "(nat \<Rightarrow> nat) \<Rightarrow> agx_instr \<Rightarrow> 32 word \<times> 32 word \<times> 32 word
     \<Rightarrow> ra_error + 32 word \<times> 32 word \<times> 32 word" where
  "demand_instr widths I st =
     (case st of (demand, late_kill_count, max_demand) \<Rightarrow>
      if op I = AGX_OPCODE_PHI then Inr st
      else
        (case fold_err (demand_kill_src widths I) [0..<length (src I)]
                (demand - late_kill_count) of
           Inl e \<Rightarrow> Inl e
         | Inr demand1 \<Rightarrow>
             (case fold (demand_def_dest widths) (ssa_dests I) (demand1, 0) of
                (demand2, late2) \<Rightarrow> Inr (demand2, late2, max demand2 max_demand))))"

definition demand_live_in ::
  "agx_context \<Rightarrow> (nat \<Rightarrow> nat) \<Rightarrow> (nat \<Rightarrow> ra_class) \<Rightarrow> agx_block \<Rightarrow> 32 word \<Rightarrow> 32 word" where
  "demand_live_in ctx widths cls block demand =
     fold (\<lambda>i d. if cls i = RA_GPR then d + of_nat (widths i) else d)
          (filter (\<lambda>i. i \<in> live_in block) [0..<alloc ctx]) demand"

definition demand_block ::
  "agx_context \<Rightarrow> (nat \<Rightarrow> nat) \<Rightarrow> (nat \<Rightarrow> ra_class) \<Rightarrow> agx_block \<Rightarrow> 32 word
     \<Rightarrow> ra_error + 32 word" where
  "demand_block ctx widths cls block max_demand =
     (let demand = demand_live_in ctx widths cls block (if ctx_any_cf ctx then 1 else 0)
      in case fold_err (demand_instr widths) (instructions block)
                (demand, 0, max demand max_demand) of
           Inl e \<Rightarrow> Inl e
         | Inr (_, _, max_demand') \<Rightarrow> Inr max_demand')"

definition agx_calc_register_demand :: "agx_context \<Rightarrow> ra_error + 32 word" where
  "agx_calc_register_demand ctx =
     (case gather_widths ctx of
        Inl e \<Rightarrow> Inl e
      | Inr (widths, cls) \<Rightarrow> fold_err (demand_block ctx widths cls) (blocks ctx) 0)"

subsection \<open>The demand the claim describes\<close>

text \<open>
  The claim's own words, for comparison with the code: the width of a value is the size
  of its defining destination rounded up to a power of two; a value is general-purpose
  unless its definition is a memory operand; the values live after an instruction are
  those live before it, without the general-purpose sources it kills, with its
  general-purpose destinations (a phi changes nothing, its destination counts as
  live-in); the demand is the greatest sum of widths of the live values over the points
  of all blocks, plus one when the program uses control flow.
\<close>

definition rounded_width :: "agx_context \<Rightarrow> nat \<Rightarrow> nat" where
  "rounded_width ctx v =
     (case find (\<lambda>d. idx_value d = v) (all_ssa_dests ctx) of
        None \<Rightarrow> 0
      | Some d \<Rightarrow> util_next_power_of_two (agx_index_size_16 d))"

definition value_class :: "agx_context \<Rightarrow> nat \<Rightarrow> ra_class" where
  "value_class ctx v =
     (case find (\<lambda>d. idx_value d = v) (all_ssa_dests ctx) of
        None \<Rightarrow> RA_GPR
      | Some d \<Rightarrow> ra_class_for_index d)"

definition killed_gpr :: "agx_instr \<Rightarrow> nat list" where
  "killed_gpr I =
     map idx_value (filter (\<lambda>x. idx_kill x \<and> ra_class_for_index x = RA_GPR) (src I))"

definition defined_gpr :: "agx_instr \<Rightarrow> nat list" where
  "defined_gpr I =
     map idx_value (filter (\<lambda>d. ra_class_for_index d = RA_GPR) (ssa_dests I))"

definition live_entry :: "agx_context \<Rightarrow> agx_block \<Rightarrow> nat set" where
  "live_entry ctx block =
     set (filter (\<lambda>i. i \<in> live_in block \<and> value_class ctx i = RA_GPR) [0..<alloc ctx])"

definition live_after :: "nat set \<Rightarrow> agx_instr \<Rightarrow> nat set" where
  "live_after L I =
     (if op I = AGX_OPCODE_PHI then L else (L - set (killed_gpr I)) \<union> set (defined_gpr I))"

fun live_points :: "nat set \<Rightarrow> agx_instr list \<Rightarrow> nat set list" where
  "live_points L [] = [L]"
| "live_points L (I # Is) = L # live_points (live_after L I) Is"

definition live_sum :: "agx_context \<Rightarrow> nat set \<Rightarrow> nat" where
  "live_sum ctx L = sum (rounded_width ctx) L + (if ctx_any_cf ctx then 1 else 0)"

definition block_demands :: "agx_context \<Rightarrow> agx_block \<Rightarrow> nat list" where
  "block_demands ctx block =
     map (live_sum ctx) (live_points (live_entry ctx block) (instructions block))"

definition true_demand :: "agx_context \<Rightarrow> nat" where
  "true_demand ctx = fold max (concat (map (block_demands ctx) (blocks ctx))) 0"

subsection \<open>Programs with liveness computed\<close>

text \<open>
  What the calculation relies on from the passes before it. A killed source is an SSA
  value, and when a general-purpose value is killed by an instruction, the first source
  equal to it carries the kill flag (the later ones are the duplicates the walk skips).
\<close>

definition kill_first :: "agx_instr \<Rightarrow> bool" where
  "kill_first I \<longleftrightarrow>
     list_all (\<lambda>x. idx_kill x \<longrightarrow>
        idx_type x = AGX_INDEX_NORMAL
        \<and> (ra_class_for_index x = RA_GPR \<longrightarrow>
             (case find (\<lambda>b. agx_is_equiv b x) (src I) of
                None \<Rightarrow> False
              | Some y \<Rightarrow> idx_kill y \<and> ra_class_for_index y = RA_GPR))) (src I)"

text \<open>
  At each instruction the killed general-purpose values are live before it, and its
  general-purpose destinations are distinct new values. The program is in SSA form
  (one definition per value), widths fit the \<^verbatim>\<open>uint8_t\<close> array, and the sums
  stay below \<open>2 ^ 32\<close>.
\<close>

definition instr_ok :: "nat set \<Rightarrow> agx_instr \<Rightarrow> bool" where
  "instr_ok L I \<longleftrightarrow>
     op I = AGX_OPCODE_PHI
     \<or> (kill_first I \<and> set (killed_gpr I) \<subseteq> L \<and> distinct (defined_gpr I)
        \<and> set (defined_gpr I) \<inter> (L - set (killed_gpr I)) = {})"

fun points_ok :: "nat set \<Rightarrow> agx_instr list \<Rightarrow> bool" where
  "points_ok L [] = True"
| "points_ok L (I # Is) \<longleftrightarrow> instr_ok L I \<and> points_ok (live_after L I) Is"

definition liveness_computed :: "agx_context \<Rightarrow> bool" where
  "liveness_computed ctx \<longleftrightarrow>
     distinct (map idx_value (all_ssa_dests ctx))
     \<and> list_all (\<lambda>d. util_next_power_of_two (agx_index_size_16 d) < 256) (all_ssa_dests ctx)
     \<and> list_all (\<lambda>b. points_ok (live_entry ctx b) (instructions b)) (blocks ctx)
     \<and> list_all (\<lambda>n. n < 2 ^ 32) (concat (map (block_demands ctx) (blocks ctx)))"

lemma fold_err_gather:
  assumes "distinct (map idx_value ds)"
    and "\<forall>d\<in>set ds. util_next_power_of_two (agx_index_size_16 d) < 256"
    and "\<forall>d\<in>set ds. w (idx_value d) = 0"
  shows "fold_err gather_width ds (w, c) =
     Inr (\<lambda>v. case find (\<lambda>d. idx_value d = v) ds of
                None \<Rightarrow> w v | Some d \<Rightarrow> util_next_power_of_two (agx_index_size_16 d),
          \<lambda>v. case find (\<lambda>d. idx_value d = v) ds of
                None \<Rightarrow> c v | Some d \<Rightarrow> ra_class_for_index d)"
  using assms
proof (induction ds arbitrary: w c)
  case Nil
  then show ?case by simp
next
  case (Cons d ds)
  let ?v = "idx_value d"
  let ?n = "util_next_power_of_two (agx_index_size_16 d)"
  let ?w = "w(?v := ?n)" and ?c = "c(?v := ra_class_for_index d)"
  have n: "?n mod 256 = ?n" using Cons.prems(2) by simp
  have g: "gather_width d (w, c) = Inr (?w, ?c)"
    using Cons.prems(3) n by (simp add: gather_width_def Let_def)
  have "?v \<notin> idx_value ` set ds" using Cons.prems(1) by simp
  then have notin: "\<forall>d'\<in>set ds. idx_value d' \<noteq> ?v" by (metis imageI)
  then have nf: "find (\<lambda>d'. idx_value d' = ?v) ds = None"
    by (auto simp: find_None_iff)
  have w0: "\<forall>d'\<in>set ds. ?w (idx_value d') = 0" using Cons.prems(3) notin by simp
  have "fold_err gather_width (d # ds) (w, c) = fold_err gather_width ds (?w, ?c)"
    using g by simp
  also have "\<dots> = Inr (\<lambda>v. case find (\<lambda>d. idx_value d = v) ds of
                None \<Rightarrow> ?w v | Some d \<Rightarrow> util_next_power_of_two (agx_index_size_16 d),
          \<lambda>v. case find (\<lambda>d. idx_value d = v) ds of
                None \<Rightarrow> ?c v | Some d \<Rightarrow> ra_class_for_index d)"
  proof (rule Cons.IH)
    show "distinct (map idx_value ds)" using Cons.prems(1) by simp
    show "\<forall>d\<in>set ds. util_next_power_of_two (agx_index_size_16 d) < 256"
      using Cons.prems(2) by simp
    show "\<forall>d'\<in>set ds. ?w (idx_value d') = 0" by (rule w0)
  qed
  also have "\<dots> = Inr (\<lambda>v. case find (\<lambda>d. idx_value d = v) (d # ds) of
                None \<Rightarrow> w v | Some d \<Rightarrow> util_next_power_of_two (agx_index_size_16 d),
          \<lambda>v. case find (\<lambda>d. idx_value d = v) (d # ds) of
                None \<Rightarrow> c v | Some d \<Rightarrow> ra_class_for_index d)"
    using nf by (auto simp: fun_eq_iff split: option.splits)
  finally show ?case .
qed

lemma gather_widths_wf:
  assumes "liveness_computed ctx"
  shows "gather_widths ctx = Inr (rounded_width ctx, value_class ctx)"
proof -
  have "fold_err gather_width (all_ssa_dests ctx) (\<lambda>_. 0, \<lambda>_. RA_GPR) =
     Inr (\<lambda>v. case find (\<lambda>d. idx_value d = v) (all_ssa_dests ctx) of
                None \<Rightarrow> 0 | Some d \<Rightarrow> util_next_power_of_two (agx_index_size_16 d),
          \<lambda>v. case find (\<lambda>d. idx_value d = v) (all_ssa_dests ctx) of
                None \<Rightarrow> RA_GPR | Some d \<Rightarrow> ra_class_for_index d)"
    using assms by (intro fold_err_gather) (auto simp: liveness_computed_def list_all_iff)
  then show ?thesis
    by (simp add: gather_widths_def rounded_width_def value_class_def fun_eq_iff)
qed

lemma rounded_width_pot:
  assumes "d \<in> set (all_ssa_dests ctx)"
  shows "util_next_power_of_two (rounded_width ctx (idx_value d)) = rounded_width ctx (idx_value d)"
proof -
  from assms obtain d' where "find (\<lambda>x. idx_value x = idx_value d) (all_ssa_dests ctx) = Some d'"
    by (cases "find (\<lambda>x. idx_value x = idx_value d) (all_ssa_dests ctx)")
       (auto simp: find_None_iff)
  then show ?thesis by (simp add: rounded_width_def util_next_power_of_two_idem)
qed


definition killed_upto :: "agx_instr \<Rightarrow> nat \<Rightarrow> nat set" where
  "killed_upto I s =
     set (map idx_value
            (filter (\<lambda>x. idx_kill x \<and> ra_class_for_index x = RA_GPR) (take s (src I))))"

lemma killed_upto_iff:
  "v \<in> killed_upto I s \<longleftrightarrow>
     (\<exists>y\<in>set (take s (src I)). idx_kill y \<and> ra_class_for_index y = RA_GPR \<and> idx_value y = v)"
  unfolding killed_upto_def set_map set_filter image_iff by blast

lemma killed_upto_all: "killed_upto I (length (src I)) = set (killed_gpr I)"
  by (simp add: killed_upto_def killed_gpr_def)

lemma killed_upto_Suc:
  assumes "s < length (src I)"
  shows "killed_upto I (Suc s) =
     (if idx_kill (src I ! s) \<and> ra_class_for_index (src I ! s) = RA_GPR
      then insert (idx_value (src I ! s)) (killed_upto I s) else killed_upto I s)"
  using assms by (simp add: killed_upto_def take_Suc_conv_app_nth)

lemma demand_kill_src_step:
  fixes W :: "nat \<Rightarrow> nat"
  assumes kf: "kill_first I" and sub: "set (killed_gpr I) \<subseteq> L" and fin: "finite L"
    and s: "s < length (src I)"
  shows "demand_kill_src W I s (of_nat (sum W (L - killed_upto I s) + c)) =
           Inr (of_nat (sum W (L - killed_upto I (Suc s)) + c))"
proof -
  let ?x = "src I ! s"
  let ?v = "idx_value ?x"
  have xin: "?x \<in> set (src I)" using s by simp
  show ?thesis
  proof (cases "idx_kill ?x \<and> ra_class_for_index ?x = RA_GPR")
    case False
    then have "killed_upto I (Suc s) = killed_upto I s" using killed_upto_Suc[OF s] by auto
    moreover have "idx_kill ?x \<Longrightarrow> idx_type ?x = AGX_INDEX_NORMAL"
      using kf xin by (auto simp: kill_first_def list_all_iff)
    ultimately show ?thesis using False by (auto simp: demand_kill_src_def Let_def)
  next
    case True
    have ty: "idx_type ?x = AGX_INDEX_NORMAL"
      using kf xin True by (auto simp: kill_first_def list_all_iff)
    have KS: "killed_upto I (Suc s) = insert ?v (killed_upto I s)"
      using killed_upto_Suc[OF s] True by simp
    show ?thesis
    proof (cases "list_ex (\<lambda>b. agx_is_equiv b ?x) (take s (src I))")
      case dup: True
      then obtain j where j: "j < s" "agx_is_equiv (src I ! j) ?x"
        using s by (auto simp: list_ex_iff in_set_conv_nth)
      from kf xin True obtain y where y: "find (\<lambda>b. agx_is_equiv b ?x) (src I) = Some y"
        "idx_kill y" "ra_class_for_index y = RA_GPR"
        by (auto simp: kill_first_def list_all_iff split: option.splits)
      from y(1) obtain i where i: "i < length (src I)" "src I ! i = y" "agx_is_equiv y ?x"
        "\<forall>k<i. \<not> agx_is_equiv (src I ! k) ?x"
        by (auto simp: find_Some_iff)
      have "i \<le> j" using i(4) j by (meson not_le_imp_less)
      then have "i < s" using j by simp
      then have "y \<in> set (take s (src I))"
        using i s by (auto simp: in_set_conv_nth)
      moreover have "idx_value y = ?v" using i(3) by (simp add: agx_is_equiv_def)
      ultimately have "?v \<in> killed_upto I s" using y(2,3) unfolding killed_upto_iff by blast
      then have "killed_upto I (Suc s) = killed_upto I s" using KS by auto
      then show ?thesis using True ty dup by (simp add: demand_kill_src_def Let_def)
    next
      case nodup: False
      have notin: "?v \<notin> killed_upto I s"
      proof
        assume "?v \<in> killed_upto I s"
        then obtain y where y: "y \<in> set (take s (src I))" "idx_kill y" "idx_value y = ?v"
          unfolding killed_upto_iff by blast
        then have "y \<in> set (src I)" by (meson in_set_takeD)
        then have "idx_type y = AGX_INDEX_NORMAL"
          using kf y(2) by (auto simp: kill_first_def list_all_iff)
        then have "agx_is_equiv y ?x" using ty y(3) by (simp add: agx_is_equiv_def)
        with nodup y(1) show False by (auto simp: list_ex_iff)
      qed
      have "?v \<in> set (killed_gpr I)"
        using xin True unfolding killed_gpr_def set_map set_filter image_iff by blast
      then have vin: "?v \<in> L - killed_upto I s" using sub notin by auto
      have finK: "finite (L - killed_upto I s)" using fin by simp
      have eq: "L - killed_upto I (Suc s) = (L - killed_upto I s) - {?v}" using KS by auto
      have le: "W ?v \<le> sum W (L - killed_upto I s)"
        using finK vin by (meson member_le_sum zero_le)
      have "sum W (L - killed_upto I (Suc s)) = sum W (L - killed_upto I s) - W ?v"
        unfolding eq using finK vin by (simp add: sum_diff1_nat)
      then have "sum W (L - killed_upto I (Suc s)) + c = (sum W (L - killed_upto I s) + c) - W ?v"
        using le by simp
      moreover have "W ?v \<le> sum W (L - killed_upto I s) + c" using le by simp
      ultimately have "(of_nat (sum W (L - killed_upto I (Suc s)) + c) :: 32 word) =
          of_nat (sum W (L - killed_upto I s) + c) - of_nat (W ?v)"
        by (simp only: of_nat_diff)
      then show ?thesis using True ty nodup by (simp add: demand_kill_src_def Let_def)
    qed
  qed
qed

lemma demand_kill_loop:
  fixes W :: "nat \<Rightarrow> nat"
  assumes kf: "kill_first I" and sub: "set (killed_gpr I) \<subseteq> L" and fin: "finite L"
  shows "s \<le> length (src I) \<Longrightarrow>
         fold_err (demand_kill_src W I) [0..<s] (of_nat (sum W L + c)) =
           Inr (of_nat (sum W (L - killed_upto I s) + c))"
proof (induction s)
  case 0
  then show ?case by (simp add: killed_upto_def)
next
  case (Suc s)
  then have s: "s < length (src I)" by simp
  show ?case
    using Suc.IH s demand_kill_src_step[OF kf sub fin s, of W c]
    by (simp add: fold_err_append)
qed


lemma word32_max_of_nat:
  assumes "a < 2 ^ 32" "b < 2 ^ 32"
  shows "max (of_nat a :: 32 word) (of_nat b) = of_nat (max a b)"
proof -
  have "(of_nat a :: 32 word) \<le> of_nat b \<longleftrightarrow> a \<le> b"
    using assms by (simp add: word_of_nat_less_eq_iff take_bit_nat_eq_self)
  then show ?thesis by (simp add: max_def)
qed

lemma demand_def_dests:
  fixes W :: "nat \<Rightarrow> nat"
  assumes "\<forall>d\<in>set ds. util_next_power_of_two (W (idx_value d)) = W (idx_value d)"
  shows "fold (demand_def_dest W) ds (of_nat A, 0) =
           (of_nat (A + sum_list (map W (map idx_value
                      (filter (\<lambda>d. ra_class_for_index d = RA_GPR) ds)))), 0)"
  using assms
proof (induction ds arbitrary: A)
  case Nil
  then show ?case by simp
next
  case (Cons d ds)
  have pot: "util_next_power_of_two (W (idx_value d)) = W (idx_value d)"
    using Cons.prems by simp
  have step: "demand_def_dest W d (of_nat A, 0) =
      (of_nat (if ra_class_for_index d = RA_GPR then A + W (idx_value d) else A), 0)"
    by (simp add: demand_def_dest_def Let_def pot)
  show ?case
    using Cons.IH[of "if ra_class_for_index d = RA_GPR then A + W (idx_value d) else A"]
      Cons.prems
    by (simp add: step add.assoc)
qed

lemma demand_instr_ok:
  fixes W :: "nat \<Rightarrow> nat"
  assumes ok: "instr_ok L I" and fin: "finite L"
    and pot: "\<forall>d\<in>set (ssa_dests I). util_next_power_of_two (W (idx_value d)) = W (idx_value d)"
  shows "demand_instr W I (of_nat (sum W L + c), 0, m) =
           Inr (of_nat (sum W (live_after L I) + c), 0,
                if op I = AGX_OPCODE_PHI then m
                else max (of_nat (sum W (live_after L I) + c)) m)"
proof (cases "op I = AGX_OPCODE_PHI")
  case True
  then show ?thesis by (simp add: demand_instr_def live_after_def)
next
  case False
  with ok have kf: "kill_first I" and sub: "set (killed_gpr I) \<subseteq> L"
    and dist: "distinct (defined_gpr I)"
    and disj: "set (defined_gpr I) \<inter> (L - set (killed_gpr I)) = {}"
    by (auto simp: instr_ok_def)
  let ?L1 = "L - set (killed_gpr I)"
  have k: "fold_err (demand_kill_src W I) [0..<length (src I)] (of_nat (sum W L + c)) =
      Inr (of_nat (sum W ?L1 + c))"
    using demand_kill_loop[OF kf sub fin, of "length (src I)" W c]
    by (simp add: killed_upto_all)
  have d: "fold (demand_def_dest W) (ssa_dests I) (of_nat (sum W ?L1 + c), 0) =
      (of_nat (sum W ?L1 + c + sum_list (map W (defined_gpr I))), 0)"
    using demand_def_dests[OF pot, of "sum W ?L1 + c"] by (simp add: defined_gpr_def)
  have "sum_list (map W (defined_gpr I)) = sum W (set (defined_gpr I))"
    using dist by (rule sum_list_distinct_conv_sum_set)
  moreover have "sum W (?L1 \<union> set (defined_gpr I)) = sum W ?L1 + sum W (set (defined_gpr I))"
    using fin disj by (intro sum.union_disjoint) auto
  ultimately have s: "sum W ?L1 + c + sum_list (map W (defined_gpr I)) =
      sum W (live_after L I) + c"
    using False by (simp add: live_after_def)
  show ?thesis
    using False k d s by (simp add: demand_instr_def)
qed


lemma live_after_finite: "finite L \<Longrightarrow> finite (live_after L I)"
  by (simp add: live_after_def)

lemma live_points_Cons: "\<exists>Ls. live_points L Is = L # Ls"
  by (cases Is) simp_all

lemma fold_max_hd:
  fixes M :: nat
  shows "x \<le> M \<Longrightarrow> fold max (x # xs) M = fold max xs M"
  by (simp add: max_def)

lemma fold_max_bound:
  fixes M :: nat
  shows "M < B \<Longrightarrow> \<forall>x\<in>set xs. x < B \<Longrightarrow> fold max xs M < B"
  by (induction xs arbitrary: M) auto

lemma demand_instrs_ok:
  assumes ok: "points_ok L Is" and fin: "finite L"
    and pot: "\<forall>I\<in>set Is. \<forall>d\<in>set (ssa_dests I).
       util_next_power_of_two (rounded_width ctx (idx_value d)) = rounded_width ctx (idx_value d)"
    and bnd: "\<forall>n\<in>set (map (live_sum ctx) (live_points L Is)). n < 2 ^ 32"
    and M: "M < 2 ^ 32" "live_sum ctx L \<le> M"
  shows "\<exists>d l. fold_err (demand_instr (rounded_width ctx)) Is
            (of_nat (live_sum ctx L), 0, of_nat M) =
           Inr (d, l, of_nat (fold max (map (live_sum ctx) (live_points L Is)) M))"
  using assms
proof (induction Is arbitrary: L M)
  case Nil
  then show ?case by (simp add: max_def)
next
  case (Cons I Is)
  let ?L' = "live_after L I"
  let ?M' = "max (live_sum ctx ?L') M"
  have okI: "instr_ok L I" and okIs: "points_ok ?L' Is" using Cons.prems(1) by simp_all
  have potI: "\<forall>d\<in>set (ssa_dests I).
       util_next_power_of_two (rounded_width ctx (idx_value d)) = rounded_width ctx (idx_value d)"
    using Cons.prems(3) by simp
  obtain Ls where Ls: "live_points ?L' Is = ?L' # Ls" using live_points_Cons by blast
  have b': "live_sum ctx ?L' < 2 ^ 32" using Cons.prems(4) Ls by simp
  have phi: "op I = AGX_OPCODE_PHI \<Longrightarrow> ?M' = M"
    using Cons.prems(6) by (simp add: live_after_def)
  have step: "demand_instr (rounded_width ctx) I (of_nat (live_sum ctx L), 0, of_nat M) =
      Inr (of_nat (live_sum ctx ?L'), 0, of_nat ?M')"
  proof (cases "op I = AGX_OPCODE_PHI")
    case True
    then show ?thesis
      using demand_instr_ok[OF okI Cons.prems(2) potI, of "if ctx_any_cf ctx then 1 else 0" "of_nat M"]
        phi by (simp add: live_sum_def)
  next
    case False
    have "max (of_nat (live_sum ctx ?L') :: 32 word) (of_nat M) = of_nat ?M'"
      using b' Cons.prems(5) by (rule word32_max_of_nat)
    then show ?thesis
      using demand_instr_ok[OF okI Cons.prems(2) potI, of "if ctx_any_cf ctx then 1 else 0" "of_nat M"]
        False by (simp add: live_sum_def)
  qed
  have IH: "\<exists>d l. fold_err (demand_instr (rounded_width ctx)) Is
            (of_nat (live_sum ctx ?L'), 0, of_nat ?M') =
           Inr (d, l, of_nat (fold max (map (live_sum ctx) (live_points ?L' Is)) ?M'))"
  proof (rule Cons.IH[OF okIs])
    show "finite ?L'" using Cons.prems(2) by (rule live_after_finite)
    show "\<forall>I\<in>set Is. \<forall>d\<in>set (ssa_dests I).
       util_next_power_of_two (rounded_width ctx (idx_value d)) = rounded_width ctx (idx_value d)"
      using Cons.prems(3) by simp
    show "\<forall>n\<in>set (map (live_sum ctx) (live_points ?L' Is)). n < 2 ^ 32"
      using Cons.prems(4) by simp
    show "?M' < 2 ^ 32" using b' Cons.prems(5) by simp
    show "live_sum ctx ?L' \<le> ?M'" by simp
  qed
  have "fold max (map (live_sum ctx) (live_points L (I # Is))) M =
        fold max (map (live_sum ctx) (live_points ?L' Is)) ?M'"
    using Cons.prems(6) by (simp add: Ls max_def)
  then show ?case using IH step by simp
qed


lemma demand_live_in_sum:
  fixes W :: "nat \<Rightarrow> nat"
  shows "fold (\<lambda>i d. if C i = RA_GPR then d + of_nat (W i) else d) xs (d0 :: 32 word) =
     d0 + of_nat (sum_list (map W (filter (\<lambda>i. C i = RA_GPR) xs)))"
  by (induction xs arbitrary: d0) (simp_all add: add.assoc)

lemma demand_live_in_entry:
  "demand_live_in ctx (rounded_width ctx) (value_class ctx) block
      (if ctx_any_cf ctx then 1 else 0) = of_nat (live_sum ctx (live_entry ctx block))"
proof -
  let ?xs = "filter (\<lambda>i. i \<in> live_in block) [0..<alloc ctx]"
  have d: "distinct (filter (\<lambda>i. value_class ctx i = RA_GPR) ?xs)" by simp
  have "set (filter (\<lambda>i. value_class ctx i = RA_GPR) ?xs) = live_entry ctx block"
    by (auto simp: live_entry_def)
  then have "sum_list (map (rounded_width ctx) (filter (\<lambda>i. value_class ctx i = RA_GPR) ?xs))
      = sum (rounded_width ctx) (live_entry ctx block)"
    using sum_list_distinct_conv_sum_set[OF d, of "rounded_width ctx"] by simp
  then show ?thesis
    by (simp add: demand_live_in_def demand_live_in_sum live_sum_def)
qed

lemma demand_block_ok:
  assumes ok: "points_ok (live_entry ctx block) (instructions block)"
    and pot: "\<forall>I\<in>set (instructions block). \<forall>d\<in>set (ssa_dests I).
       util_next_power_of_two (rounded_width ctx (idx_value d)) = rounded_width ctx (idx_value d)"
    and bnd: "\<forall>n\<in>set (block_demands ctx block). n < 2 ^ 32"
    and M: "M < 2 ^ 32"
  shows "demand_block ctx (rounded_width ctx) (value_class ctx) block (of_nat M) =
           Inr (of_nat (fold max (block_demands ctx block) M))"
proof -
  let ?L = "live_entry ctx block"
  let ?M = "max (live_sum ctx ?L) M"
  obtain Ls where Ls: "live_points ?L (instructions block) = ?L # Ls"
    using live_points_Cons by blast
  have b0: "live_sum ctx ?L < 2 ^ 32" using bnd Ls by (simp add: block_demands_def)
  have m: "max (of_nat (live_sum ctx ?L) :: 32 word) (of_nat M) = of_nat ?M"
    using b0 M by (rule word32_max_of_nat)
  have fin: "finite ?L" by (simp add: live_entry_def)
  have "\<exists>d l. fold_err (demand_instr (rounded_width ctx)) (instructions block)
            (of_nat (live_sum ctx ?L), 0, of_nat ?M) =
           Inr (d, l, of_nat (fold max (map (live_sum ctx) (live_points ?L (instructions block))) ?M))"
  proof (rule demand_instrs_ok[OF ok fin pot])
    show "\<forall>n\<in>set (map (live_sum ctx) (live_points ?L (instructions block))). n < 2 ^ 32"
      using bnd by (simp add: block_demands_def)
    show "?M < 2 ^ 32" using b0 M by simp
    show "live_sum ctx ?L \<le> ?M" by simp
  qed
  then obtain d l where r: "fold_err (demand_instr (rounded_width ctx)) (instructions block)
            (of_nat (live_sum ctx ?L), 0, of_nat ?M) =
           Inr (d, l, of_nat (fold max (map (live_sum ctx) (live_points ?L (instructions block))) ?M))"
    by blast
  have "fold max (map (live_sum ctx) (live_points ?L (instructions block))) ?M =
        fold max (block_demands ctx block) M"
    by (simp add: block_demands_def Ls)
  then show ?thesis
    using r m by (simp add: demand_block_def demand_live_in_entry Let_def)
qed

lemma demand_blocks_ok:
  assumes "\<forall>b\<in>set bs. points_ok (live_entry ctx b) (instructions b)"
    and "\<forall>b\<in>set bs. \<forall>I\<in>set (instructions b). \<forall>d\<in>set (ssa_dests I).
       util_next_power_of_two (rounded_width ctx (idx_value d)) = rounded_width ctx (idx_value d)"
    and "\<forall>n\<in>set (concat (map (block_demands ctx) bs)). n < 2 ^ 32"
    and "M < 2 ^ 32"
  shows "fold_err (demand_block ctx (rounded_width ctx) (value_class ctx)) bs (of_nat M) =
           Inr (of_nat (fold max (concat (map (block_demands ctx) bs)) M))"
  using assms
proof (induction bs arbitrary: M)
  case Nil
  then show ?case by simp
next
  case (Cons b bs)
  let ?M' = "fold max (block_demands ctx b) M"
  have step: "demand_block ctx (rounded_width ctx) (value_class ctx) b (of_nat M) =
      Inr (of_nat ?M')"
    using Cons.prems by (intro demand_block_ok) simp_all
  have M': "?M' < 2 ^ 32" using Cons.prems(3,4) by (intro fold_max_bound) simp_all
  have "fold_err (demand_block ctx (rounded_width ctx) (value_class ctx)) bs (of_nat ?M') =
      Inr (of_nat (fold max (concat (map (block_demands ctx) bs)) ?M'))"
    using Cons.prems M' by (intro Cons.IH) simp_all
  then show ?case using step by simp
qed

lemma mem_all_ssa_dests:
  "b \<in> set (blocks ctx) \<Longrightarrow> I \<in> set (instructions b) \<Longrightarrow> d \<in> set (ssa_dests I)
     \<Longrightarrow> d \<in> set (all_ssa_dests ctx)"
  unfolding all_ssa_dests_def all_instrs_def set_concat set_map by blast

lemma agx_calc_register_demand_wf:
  assumes "liveness_computed ctx"
  shows "agx_calc_register_demand ctx = Inr (of_nat (true_demand ctx))
         \<and> unat (of_nat (true_demand ctx) :: 32 word) = true_demand ctx"
proof -
  have pot: "\<forall>b\<in>set (blocks ctx). \<forall>I\<in>set (instructions b). \<forall>d\<in>set (ssa_dests I).
       util_next_power_of_two (rounded_width ctx (idx_value d)) = rounded_width ctx (idx_value d)"
    using rounded_width_pot mem_all_ssa_dests by blast
  have bnd: "\<forall>n\<in>set (concat (map (block_demands ctx) (blocks ctx))). n < 2 ^ 32"
    using assms by (simp add: liveness_computed_def list_all_iff)
  have ok: "\<forall>b\<in>set (blocks ctx). points_ok (live_entry ctx b) (instructions b)"
    using assms by (simp add: liveness_computed_def list_all_iff)
  have "fold_err (demand_block ctx (rounded_width ctx) (value_class ctx)) (blocks ctx) (of_nat 0) =
           Inr (of_nat (fold max (concat (map (block_demands ctx) (blocks ctx))) 0))"
    using ok pot bnd by (intro demand_blocks_ok) simp_all
  then have 1: "agx_calc_register_demand ctx = Inr (of_nat (true_demand ctx))"
    using gather_widths_wf[OF assms] by (simp add: agx_calc_register_demand_def true_demand_def)
  have "true_demand ctx < 2 ^ 32"
    unfolding true_demand_def using bnd by (intro fold_max_bound) simp_all
  then have "unat (of_nat (true_demand ctx) :: 32 word) = true_demand ctx"
    by (simp add: unat_of_nat)
  with 1 show ?thesis by simp
qed


text \<open>
  C2: for a program in SSA form with liveness computed, \<^verbatim>\<open>agx_calc_register_demand\<close>
  returns exactly the greatest sum, over the points of all blocks, of the rounded widths
  of the live general-purpose values, plus one when the program uses control flow: the
  walk's running demand is the sum over the live set after every instruction.
\<close>

theorem calc_register_demand_exact:
  assumes "liveness_computed ctx"
  shows "agx_calc_register_demand ctx = Inr (of_nat (true_demand ctx))
         \<and> unat (of_nat (true_demand ctx) :: 32 word) = true_demand ctx"
  using agx_calc_register_demand_wf[OF assms] .

text \<open>
  A block that defines a 32-bit scalar and a three-component 16-bit vector and then kills
  both (the first twice) in an instruction defining a 16-bit scalar, with control flow:
  the demand is 1 + 2 + 4.
\<close>

definition ssa_idx :: "nat \<Rightarrow> agx_size \<Rightarrow> nat \<Rightarrow> bool \<Rightarrow> agx_index" where
  "ssa_idx v sz ch k = \<lparr> idx_type = AGX_INDEX_NORMAL, idx_value = v, idx_size = sz,
       idx_channels = ch, idx_memory = False, idx_kill = k \<rparr>"

definition ex_prog :: agx_context where
  "ex_prog = \<lparr> blocks = [\<lparr> instructions =
      [ \<lparr> op = AGX_OPCODE_OTHER 0, dest = [ssa_idx 0 AGX_SIZE_32 1 False], src = [] \<rparr>,
        \<lparr> op = AGX_OPCODE_OTHER 0, dest = [ssa_idx 1 AGX_SIZE_16 3 False], src = [] \<rparr>,
        \<lparr> op = AGX_OPCODE_OTHER 1, dest = [ssa_idx 2 AGX_SIZE_16 1 False],
           src = [ssa_idx 0 AGX_SIZE_32 1 True, ssa_idx 1 AGX_SIZE_16 3 True,
                  ssa_idx 0 AGX_SIZE_32 1 True] \<rparr> ],
      live_in = {} \<rparr>], alloc = 3, ctx_any_cf = True \<rparr>"

lemmas ex_prog_eval =
  true_demand_def ex_prog_def block_demands_def live_entry_def live_sum_def
  live_after_def killed_gpr_def defined_gpr_def ssa_dests_def is_ssa_def ssa_idx_def
  rounded_width_def all_ssa_dests_def all_instrs_def ra_class_for_index_def
  agx_index_size_16_def util_next_power_of_two_def npot_from.simps value_class_def

lemma ex_prog_true_demand: "true_demand ex_prog = 7"
  by (simp add: ex_prog_eval)

lemma ex_prog_liveness_computed: "liveness_computed ex_prog"
  by (simp add: liveness_computed_def instr_ok_def kill_first_def agx_is_equiv_def ex_prog_eval)

theorem calc_register_demand_exact_witness:
  "liveness_computed ex_prog \<and> agx_calc_register_demand ex_prog = Inr 7
   \<and> true_demand ex_prog = 7"
  using calc_register_demand_exact[OF ex_prog_liveness_computed]
    ex_prog_liveness_computed ex_prog_true_demand by simp

section \<open>The driver: deciding to spill\<close>

text \<open>
  The head of \<^verbatim>\<open>agx_ra\<close>. What it calls from other files is a parameter: the number
  of registers \<^verbatim>\<open>AGX_NUM_REGS\<close>, the occupancy table and the liveness analysis; the
  spiller is a parameter as well, since the decision does not depend on what it emits.
  \<open>dbg_spill\<close> is \<^verbatim>\<open>agx_compiler_debug & AGX_DBG_SPILL\<close>. The phase returns whether
  it spilled, the program it hands on and the demand of that program.
\<close>

record ra_env =
  AGX_NUM_REGS :: nat
  agx_max_registers_for_occupancy :: "nat \<Rightarrow> nat"
  agx_compute_liveness :: "agx_context \<Rightarrow> agx_context"
  agx_spill_everything :: "agx_context \<Rightarrow> agx_context"

record ra_key =
  is_compute :: bool
  workgroup_size_variable :: bool
  workgroup_size :: "nat \<times> nat \<times> nat"
  is_helper :: bool
  has_scratch :: bool
  dbg_spill :: bool

definition max_possible_regs :: "ra_env \<Rightarrow> ra_key \<Rightarrow> nat" where
  "max_possible_regs env key =
     (let m = AGX_NUM_REGS env;
          m = (if is_compute key then
                 agx_max_registers_for_occupancy env
                   (if workgroup_size_variable key then 1024
                    else (case workgroup_size key of (x, y, z) \<Rightarrow> x * y * z))
               else m)
      in if is_helper key then 32 else m)"

definition spilling_needed :: "ra_env \<Rightarrow> ra_key \<Rightarrow> 32 word \<Rightarrow> bool" where
  "spilling_needed env key effective_demand \<longleftrightarrow>
     unat effective_demand > max_possible_regs env key \<or> (dbg_spill key \<and> has_scratch key)"

definition agx_ra_spill_phase ::
  "ra_env \<Rightarrow> ra_key \<Rightarrow> agx_context \<Rightarrow> ra_error + bool \<times> agx_context \<times> 32 word" where
  "agx_ra_spill_phase env key ctx =
     (let ctx1 = agx_compute_liveness env ctx in
      case agx_calc_register_demand ctx1 of
        Inl e \<Rightarrow> Inl e
      | Inr effective_demand \<Rightarrow>
          if spilling_needed env key effective_demand then
            if \<not> has_scratch key then Inl (Assertion ''internal shaders are unspillable'')
            else
              (let ctx2 = agx_compute_liveness env (agx_spill_everything env ctx1) in
               case agx_calc_register_demand ctx2 of
                 Inl e \<Rightarrow> Inl e
               | Inr demand2 \<Rightarrow>
                   if unat demand2 \<le> max_possible_regs env key then Inr (True, ctx2, demand2)
                   else Inl (Assertion ''spiller post-condition''))
          else Inr (False, ctx1, effective_demand))"

definition ex_env :: ra_env where
  "ex_env = \<lparr> AGX_NUM_REGS = 256, agx_max_registers_for_occupancy = (\<lambda>_. 256),
              agx_compute_liveness = (\<lambda>c. c), agx_spill_everything = (\<lambda>c. c) \<rparr>"

definition ex_key :: "bool \<Rightarrow> ra_key" where
  "ex_key dbg = \<lparr> is_compute = False, workgroup_size_variable = False, workgroup_size = (1, 1, 1),
              is_helper = False, has_scratch = True, dbg_spill = dbg \<rparr>"


text \<open>The table-gathering loop of \<^verbatim>\<open>agx_ra\<close> (after the spill decision).\<close>

record ra_tables =
  t_ncomps :: "nat \<Rightarrow> nat"
  t_sizes :: "nat \<Rightarrow> agx_size"
  t_classes :: "nat \<Rightarrow> ra_class"
  t_src_to_collect_phi :: "nat \<Rightarrow> agx_instr option"
  t_max_ncomps :: nat

definition ra_gather_dest :: "agx_index \<Rightarrow> ra_tables \<Rightarrow> ra_error + ra_tables" where
  "ra_gather_dest d t =
     (let v = idx_value d in
      if t_ncomps t v \<noteq> 0 then Inl (Assertion ''broken SSA'')
      else let n = util_next_power_of_two (agx_index_size_16 d) mod 256 in
        Inr (t\<lparr> t_ncomps := (t_ncomps t)(v := n),
                t_sizes := (t_sizes t)(v := idx_size d),
                t_classes := (t_classes t)(v := ra_class_for_index d),
                t_max_ncomps := max (t_max_ncomps t) n \<rparr>))"

definition ra_gather_instr :: "agx_instr \<Rightarrow> ra_tables \<Rightarrow> ra_error + ra_tables" where
  "ra_gather_instr I t =
     fold_err ra_gather_dest (ssa_dests I)
       (if op I = AGX_OPCODE_COLLECT \<or> op I = AGX_OPCODE_PHI
        then fold (\<lambda>s t'. t'\<lparr> t_src_to_collect_phi :=
                                 (t_src_to_collect_phi t')(idx_value s := Some I) \<rparr>)
                  (ssa_srcs I) t
        else t)"

definition agx_ra_gather :: "agx_context \<Rightarrow> ra_error + ra_tables" where
  "agx_ra_gather ctx =
     fold_err ra_gather_instr (all_instrs ctx)
       \<lparr> t_ncomps = (\<lambda>_. 0), t_sizes = (\<lambda>_. AGX_SIZE_16), t_classes = (\<lambda>_. RA_GPR),
         t_src_to_collect_phi = (\<lambda>_. None), t_max_ncomps = 1 \<rparr>"

lemma fold_err_invariant:
  assumes "fold_err f xs s = Inr s'" and "P s"
    and "\<And>x a b. x \<in> set xs \<Longrightarrow> P a \<Longrightarrow> f x a = Inr b \<Longrightarrow> P b"
  shows "P s'"
  using assms
proof (induction xs arbitrary: s)
  case Nil
  then show ?case by simp
next
  case (Cons x xs)
  from Cons.prems(1) obtain a where a: "f x s = Inr a" "fold_err f xs a = Inr s'"
    by (auto split: sum.splits)
  have "P a" using Cons.prems(3)[of x s a] Cons.prems(2) a(1) by simp
  then show ?case
  proof (rule Cons.IH[OF a(2)])
    fix y c b assume "y \<in> set xs" "P c" "f y c = Inr b"
    then show "P b" using Cons.prems(3)[of y c b] by simp
  qed
qed






lemma ex_prog_demand: "agx_calc_register_demand ex_prog = Inr 7"
  using agx_calc_register_demand_wf[OF ex_prog_liveness_computed] ex_prog_true_demand by simp


text \<open>
  C4: when the driver has spilled, the program was allowed to spill and the recomputed
  demand fits the register file; needing to spill a program without scratch, and a
  demand that still exceeds the file after spilling, both end in a fatal assertion.
\<close>

theorem spill_phase_fatal:
  "(agx_ra_spill_phase env key ctx = Inr (True, ctx', d') \<longrightarrow>
      has_scratch key \<and> unat d' \<le> max_possible_regs env key
      \<and> ctx' = agx_compute_liveness env (agx_spill_everything env (agx_compute_liveness env ctx))
      \<and> agx_calc_register_demand ctx' = Inr d')
   \<and> (agx_calc_register_demand (agx_compute_liveness env ctx) = Inr d
        \<and> spilling_needed env key d \<and> \<not> has_scratch key \<longrightarrow>
      agx_ra_spill_phase env key ctx = Inl (Assertion ''internal shaders are unspillable''))
   \<and> (agx_calc_register_demand (agx_compute_liveness env ctx) = Inr d
        \<and> spilling_needed env key d \<and> has_scratch key
        \<and> agx_calc_register_demand
             (agx_compute_liveness env (agx_spill_everything env (agx_compute_liveness env ctx)))
            = Inr d2
        \<and> unat d2 > max_possible_regs env key \<longrightarrow>
      agx_ra_spill_phase env key ctx = Inl (Assertion ''spiller post-condition''))"
  by (auto simp: agx_ra_spill_phase_def Let_def split: sum.splits if_splits)


theorem spill_phase_fatal_witness:
  "agx_ra_spill_phase ex_env (ex_key True) ex_prog = Inr (True, ex_prog, 7)
   \<and> has_scratch (ex_key True) \<and> unat (7 :: 32 word) \<le> max_possible_regs ex_env (ex_key True)"
proof -
  have r: "agx_ra_spill_phase ex_env (ex_key True) ex_prog = Inr (True, ex_prog, 7)"
    using ex_prog_demand
    by (simp add: agx_ra_spill_phase_def spilling_needed_def max_possible_regs_def ex_env_def
        ex_key_def)
  from spill_phase_fatal[of ex_env "ex_key True" ex_prog ex_prog 7] r show ?thesis by simp
qed

section \<open>Choosing a region to evict\<close>


text \<open>\<^verbatim>\<open>util_is_power_of_two_or_zero\<close>: \<open>(v & (v - 1)) == 0\<close> on an \<^verbatim>\<open>unsigned\<close>.\<close>

definition util_is_power_of_two_or_zero :: "nat \<Rightarrow> bool" where
  "util_is_power_of_two_or_zero v \<longleftrightarrow> ((of_nat v :: 32 word) AND (of_nat v - 1)) = 0"

text \<open>
  The inner loop of \<^verbatim>\<open>find_best_region_to_evict\<close>: one step per register of the
  window, on the pair (moves, any\_free). The count is at most three times the window
  size, far below the range of \<^verbatim>\<open>unsigned\<close>, and is kept a natural number.
\<close>

definition region_moves_step :: "nat set \<Rightarrow> nat set \<Rightarrow> nat \<Rightarrow> nat \<times> bool \<Rightarrow> nat \<times> bool" where
  "region_moves_step used killed reg ma =
     (case (if reg \<in> used then (fst ma + 1, snd ma) else (fst ma, True)) of
        (moves, any_free) \<Rightarrow> (if reg \<in> killed then moves + 2 else moves, any_free))"

definition region_moves :: "nat set \<Rightarrow> nat set \<Rightarrow> nat \<Rightarrow> nat \<Rightarrow> nat \<times> bool" where
  "region_moves used killed base sz =
     fold (region_moves_step used killed) [base..<base + sz] (0, False)"

text \<open>
  The outer loop, from \<open>base\<close> on, with the best candidate so far; \<^verbatim>\<open>killed\<close> is the
  bitset the caller passes under that name.
\<close>

function evict_scan ::
  "ra_ctx \<Rightarrow> ra_class \<Rightarrow> nat \<Rightarrow> nat set \<Rightarrow> nat set \<Rightarrow> nat \<Rightarrow> nat \<times> nat \<Rightarrow> nat \<times> nat" where
  "evict_scan rctx cls sz already_evicted killed base best =
     (if sz = 0 \<or> \<not> base + sz \<le> bound rctx cls then best
      else evict_scan rctx cls sz already_evicted killed (base + sz)
        (if base = 0 \<and> any_cf rctx then best
         else if bitset_test_range already_evicted base sz then best
         else (case region_moves (used_regs rctx cls) killed base sz of
                 (moves, any_free) \<Rightarrow>
                   if any_free \<and> moves < snd best then (base, moves) else best)))"
  by pat_completeness auto
termination
  by (relation "measure (\<lambda>(rctx, cls, sz, ev, killed, base, best). bound rctx cls - base)")
     auto

declare evict_scan.simps [simp del]

definition UINT_MAX :: nat where
  "UINT_MAX = 2 ^ 32 - 1"

definition find_best_region_to_evict ::
  "ra_ctx \<Rightarrow> ra_class \<Rightarrow> nat \<Rightarrow> nat set \<Rightarrow> nat set \<Rightarrow> ra_error + nat" where
  "find_best_region_to_evict rctx cls sz already_evicted killed =
     (if \<not> util_is_power_of_two_or_zero sz then Inl (Assertion ''precondition'')
      else if sz = 0 then Inl (Undefined ''rctx->bound[cls] % size'')
      else if bound rctx cls mod sz \<noteq> 0
        then Inl (Assertion ''register file size must be aligned to the maximum vector size'')
      else if cls \<noteq> RA_GPR then Inl (Assertion ''cls == RA_GPR'')
      else (case evict_scan rctx cls sz already_evicted killed 0 (UINT_MAX, UINT_MAX) of
              (best_base, best_moves) \<Rightarrow>
                if best_base < bound rctx cls then Inr best_base
                else Inl (Assertion ''not enough registers (should have spilled already)'')))"

text \<open>Eight registers, of which only 0 and 2 are free.\<close>

definition ex_rctx2 :: ra_ctx where
  "ex_rctx2 = ex_rctx\<lparr> bound := (\<lambda>_. 8), used_regs := (\<lambda>_. {1, 3, 4, 5, 6, 7}) \<rparr>"


text \<open>
  The claim's side: the score of a window, a window with a free sub-unit, and the
  candidates the search may return.
\<close>

definition region_cost :: "nat set \<Rightarrow> nat set \<Rightarrow> nat \<Rightarrow> nat \<Rightarrow> nat" where
  "region_cost used killed base sz =
     length (filter (\<lambda>r. r \<in> used) [base..<base + sz])
     + 2 * length (filter (\<lambda>r. r \<in> killed) [base..<base + sz])"

definition region_has_free :: "nat set \<Rightarrow> nat \<Rightarrow> nat \<Rightarrow> bool" where
  "region_has_free used base sz \<longleftrightarrow> list_ex (\<lambda>r. r \<notin> used) [base..<base + sz]"

definition evictable :: "ra_ctx \<Rightarrow> ra_class \<Rightarrow> nat \<Rightarrow> nat set \<Rightarrow> nat \<Rightarrow> bool" where
  "evictable rctx cls sz already_evicted base \<longleftrightarrow>
     sz dvd base \<and> base + sz \<le> bound rctx cls \<and> \<not> (base = 0 \<and> any_cf rctx)
     \<and> \<not> bitset_test_range already_evicted base sz
     \<and> region_has_free (used_regs rctx cls) base sz"

lemma region_moves_fold:
  "fold (region_moves_step used killed) xs (m, f) =
     (m + length (filter (\<lambda>r. r \<in> used) xs) + 2 * length (filter (\<lambda>r. r \<in> killed) xs),
      f \<or> list_ex (\<lambda>r. r \<notin> used) xs)"
  by (induction xs arbitrary: m f) (auto simp: region_moves_step_def)

lemma region_moves_eq:
  "region_moves used killed base sz =
     (region_cost used killed base sz, region_has_free used base sz)"
  by (simp add: region_moves_def region_moves_fold region_cost_def region_has_free_def)

lemma region_cost_le: "region_cost used killed base sz \<le> 3 * sz"
proof -
  have "length (filter (\<lambda>r. r \<in> used) [base..<base + sz]) \<le> sz"
    using length_filter_le[of "\<lambda>r. r \<in> used" "[base..<base + sz]"] by simp
  moreover have "length (filter (\<lambda>r. r \<in> killed) [base..<base + sz]) \<le> sz"
    using length_filter_le[of "\<lambda>r. r \<in> killed" "[base..<base + sz]"] by simp
  ultimately show ?thesis by (simp add: region_cost_def)
qed

lemma evict_scan_spec:
  assumes "0 < sz" and "sz dvd base"
  shows "(case evict_scan rctx cls sz ev killed base best of (bb, bm) \<Rightarrow>
           bm \<le> snd best
           \<and> (\<forall>c. base \<le> c \<and> evictable rctx cls sz ev c
                  \<longrightarrow> bm \<le> region_cost (used_regs rctx cls) killed c sz)
           \<and> ((bb, bm) = best
               \<or> (evictable rctx cls sz ev bb
                   \<and> bm = region_cost (used_regs rctx cls) killed bb sz)))"
  using assms
proof (induction rctx cls sz ev killed base best rule: evict_scan.induct)
  case (1 rctx cls sz ev killed base best)
  let ?cost = "\<lambda>c. region_cost (used_regs rctx cls) killed c sz"
  show ?case
  proof (cases "base + sz \<le> bound rctx cls")
    case False
    then have r: "evict_scan rctx cls sz ev killed base best = best"
      by (subst evict_scan.simps) simp
    have "\<And>c. base \<le> c \<Longrightarrow> \<not> evictable rctx cls sz ev c"
      using False by (auto simp: evictable_def)
    then show ?thesis unfolding r by (cases best) auto
  next
    case True
    let ?adm = "\<not> (base = 0 \<and> any_cf rctx) \<and> \<not> bitset_test_range ev base sz
                \<and> region_has_free (used_regs rctx cls) base sz"
    define best' where "best' = (if ?adm \<and> ?cost base < snd best then (base, ?cost base) else best)"
    have best': "(if base = 0 \<and> any_cf rctx then best
         else if bitset_test_range ev base sz then best
         else (case region_moves (used_regs rctx cls) killed base sz of
                 (moves, any_free) \<Rightarrow>
                   if any_free \<and> moves < snd best then (base, moves) else best)) = best'"
      by (auto simp: region_moves_eq best'_def)
    have r: "evict_scan rctx cls sz ev killed base best =
             evict_scan rctx cls sz ev killed (base + sz) best'"
      using True 1(2) by (subst evict_scan.simps) (simp only: best', simp)
    obtain bb bm where res: "evict_scan rctx cls sz ev killed (base + sz) best' = (bb, bm)"
      by (cases "evict_scan rctx cls sz ev killed (base + sz) best'")
    have dv: "sz dvd base + sz" using 1(3) by simp
    have IH: "bm \<le> snd best'
           \<and> (\<forall>c. base + sz \<le> c \<and> evictable rctx cls sz ev c \<longrightarrow> bm \<le> ?cost c)
           \<and> ((bb, bm) = best' \<or> (evictable rctx cls sz ev bb \<and> bm = ?cost bb))"
      using 1(1)[OF _ 1(2) dv] True 1(2) res unfolding best' by simp
    have le: "snd best' \<le> snd best" by (simp add: best'_def)
    have "bm \<le> snd best'" using IH by simp
    then have a: "bm \<le> snd best" using le by simp
    have b: "\<forall>c. base \<le> c \<and> evictable rctx cls sz ev c \<longrightarrow> bm \<le> ?cost c"
    proof (intro allI impI)
      fix c assume c: "base \<le> c \<and> evictable rctx cls sz ev c"
      show "bm \<le> ?cost c"
      proof (cases "c = base")
        case True
        then have "?adm" using c by (simp add: evictable_def)
        then have "snd best' \<le> ?cost base" by (simp add: best'_def)
        moreover have "bm \<le> snd best'" using IH by simp
        ultimately show ?thesis using True by simp
      next
        case False
        have "sz dvd c" using c by (simp add: evictable_def)
        then obtain k where k: "c = sz * k" by (auto simp: dvd_def)
        from 1(3) obtain j where j: "base = sz * j" by (auto simp: dvd_def)
        have "j < k" using c False k j 1(2) by (cases "j < k") auto
        then have "Suc j \<le> k" by simp
        then have "sz * Suc j \<le> sz * k" by (rule mult_le_mono2)
        then have "base + sz \<le> c" using k j by simp
        with IH c show ?thesis by blast
      qed
    qed
    have c: "(bb, bm) = best \<or> (evictable rctx cls sz ev bb \<and> bm = ?cost bb)"
    proof (cases "?adm \<and> ?cost base < snd best")
      case False
      then have "best' = best" unfolding best'_def by (rule if_not_P)
      with IH show ?thesis by metis
    next
      case T: True
      then have eb: "evictable rctx cls sz ev base"
        using True 1(3) by (simp add: evictable_def)
      from T have "best' = (base, ?cost base)" unfolding best'_def by (rule if_P)
      with IH eb show ?thesis by auto
    qed
    show ?thesis unfolding r res using a b c by simp
  qed
qed


lemma find_best_region_sound:
  assumes b: "bound rctx cls \<le> 2 ^ 16"
    and r: "find_best_region_to_evict rctx cls sz ev killed = Inr base"
  shows "evictable rctx cls sz ev base
         \<and> (\<forall>c. evictable rctx cls sz ev c \<longrightarrow>
               region_cost (used_regs rctx cls) killed base sz
               \<le> region_cost (used_regs rctx cls) killed c sz)"
proof -
  obtain bb bm where s: "evict_scan rctx cls sz ev killed 0 (UINT_MAX, UINT_MAX) = (bb, bm)"
    by (cases "evict_scan rctx cls sz ev killed 0 (UINT_MAX, UINT_MAX)")
  from r have sz: "0 < sz"
    by (auto simp: find_best_region_to_evict_def split: if_splits)
  from r have "(if bb < bound rctx cls then Inr bb
      else Inl (Assertion ''not enough registers (should have spilled already)'')) = Inr base"
    unfolding find_best_region_to_evict_def s by (simp split: if_splits)
  then have bb: "bb < bound rctx cls" "base = bb" by (auto split: if_splits)
  have spec: "(\<forall>c. 0 \<le> c \<and> evictable rctx cls sz ev c
                  \<longrightarrow> bm \<le> region_cost (used_regs rctx cls) killed c sz)
           \<and> ((bb, bm) = (UINT_MAX, UINT_MAX)
               \<or> (evictable rctx cls sz ev bb
                   \<and> bm = region_cost (used_regs rctx cls) killed bb sz))"
    using evict_scan_spec[where base = 0 and rctx = rctx and cls = cls and ev = ev
        and killed = killed and best = "(UINT_MAX, UINT_MAX)", OF sz] s by simp
  have "bb \<noteq> UINT_MAX" using bb(1) b by (simp add: UINT_MAX_def)
  with spec have "evictable rctx cls sz ev bb"
    "bm = region_cost (used_regs rctx cls) killed bb sz" by auto
  with spec bb(2) show ?thesis by simp
qed

lemma find_best_region_exists:
  assumes b: "bound rctx cls \<le> 2 ^ 16"
    and pre: "util_is_power_of_two_or_zero sz" "0 < sz" "bound rctx cls mod sz = 0" "cls = RA_GPR"
    and c: "evictable rctx cls sz ev c"
  shows "\<exists>base. find_best_region_to_evict rctx cls sz ev killed = Inr base"
proof -
  obtain bb bm where s: "evict_scan rctx cls sz ev killed 0 (UINT_MAX, UINT_MAX) = (bb, bm)"
    by (cases "evict_scan rctx cls sz ev killed 0 (UINT_MAX, UINT_MAX)")
  have spec: "(\<forall>c. 0 \<le> c \<and> evictable rctx cls sz ev c
                  \<longrightarrow> bm \<le> region_cost (used_regs rctx cls) killed c sz)
           \<and> ((bb, bm) = (UINT_MAX, UINT_MAX)
               \<or> (evictable rctx cls sz ev bb
                   \<and> bm = region_cost (used_regs rctx cls) killed bb sz))"
    using evict_scan_spec[where base = 0 and rctx = rctx and cls = cls and ev = ev
        and killed = killed and best = "(UINT_MAX, UINT_MAX)", OF pre(2)] s by simp
  have "sz \<le> bound rctx cls" using c by (simp add: evictable_def)
  then have "3 * sz < UINT_MAX" using b by (simp add: UINT_MAX_def)
  moreover have "bm \<le> region_cost (used_regs rctx cls) killed c sz" using spec c by simp
  moreover have "region_cost (used_regs rctx cls) killed c sz \<le> 3 * sz" by (rule region_cost_le)
  ultimately have "bm \<noteq> UINT_MAX" by linarith
  with spec have "evictable rctx cls sz ev bb" by auto
  then have "bb < bound rctx cls" using pre(2) by (simp add: evictable_def)
  then show ?thesis using pre unfolding find_best_region_to_evict_def s by simp
qed

lemma free_register_window:
  assumes sz: "0 < sz" and al: "bound rctx cls mod sz = 0"
    and ev: "\<forall>r<bound rctx cls. r \<notin> ev"
    and r0: "any_cf rctx \<longrightarrow> 0 \<in> used_regs rctx cls"
    and free: "sz \<le> card {r. r < bound rctx cls \<and> r \<notin> used_regs rctx cls}"
  shows "\<exists>c. evictable rctx cls sz ev c"
proof -
  let ?B = "bound rctx cls" and ?U = "used_regs rctx cls"
  let ?F = "{r. r < ?B \<and> r \<notin> ?U}"
  have finF: "finite ?F" by simp
  have "\<exists>r\<in>?F. any_cf rctx \<longrightarrow> sz \<le> r"
  proof (cases "any_cf rctx")
    case False
    from free sz have "0 < card ?F" by linarith
    then have "?F \<noteq> {}" by (metis card.empty less_numeral_extra(3))
    then show ?thesis using False by auto
  next
    case True
    show ?thesis
    proof (rule ccontr)
      assume "\<not> ?thesis"
      then have lt: "\<And>x. x \<in> ?F \<Longrightarrow> x < sz" using True by (auto simp: not_le)
      have nz: "0 \<notin> ?F" using True r0 by simp
      have "?F \<subseteq> {1..<sz}"
      proof
        fix x assume x: "x \<in> ?F"
        then have "x \<noteq> 0" using nz by metis
        with lt[OF x] show "x \<in> {1..<sz}" by simp
      qed
      then have "card ?F \<le> card {1..<sz}" by (intro card_mono) simp_all
      with free sz show False by simp
    qed
  qed
  then obtain r where r: "r < ?B" "r \<notin> ?U" "any_cf rctx \<longrightarrow> sz \<le> r" by auto
  let ?c = "(r div sz) * sz"
  have c1: "sz dvd ?c" by simp
  have c2: "?c \<le> r" by simp
  have c3: "r < ?c + sz" using sz by (metis add.commute dividend_less_div_times)
  from al obtain k where k: "?B = sz * k" by (auto simp: mod_eq_0_iff_dvd dvd_def)
  have "r div sz < k" using r(1) k sz by (simp add: less_mult_imp_div_less mult.commute)
  then have "Suc (r div sz) \<le> k" by simp
  then have "sz * Suc (r div sz) \<le> sz * k" by (rule mult_le_mono2)
  then have c4: "?c + sz \<le> ?B" using k by (simp add: mult.commute)
  have c5: "\<not> (?c = 0 \<and> any_cf rctx)"
  proof
    assume a: "?c = 0 \<and> any_cf rctx"
    then have "sz \<le> r" using r(3) by simp
    then have "0 < r div sz" using sz by (simp add: div_greater_zero_iff)
    with a sz show False by simp
  qed
  have c6: "\<not> bitset_test_range ev ?c sz"
    using ev c4 by (auto simp: bitset_test_range_def list_ex_iff)
  have c7: "region_has_free ?U ?c sz"
    using r(2) c2 c3 by (auto simp: region_has_free_def list_ex_iff)
  show ?thesis using c1 c4 c5 c6 c7 unfolding evictable_def by blast
qed

lemma find_best_region_exists_free:
  assumes b: "bound rctx cls \<le> 2 ^ 16"
    and pre: "util_is_power_of_two_or_zero sz" "0 < sz" "bound rctx cls mod sz = 0" "cls = RA_GPR"
    and f: "\<forall>r<bound rctx cls. r \<notin> ev" "any_cf rctx \<longrightarrow> 0 \<in> used_regs rctx cls"
      "sz \<le> card {r. r < bound rctx cls \<and> r \<notin> used_regs rctx cls}"
  shows "\<exists>base. find_best_region_to_evict rctx cls sz ev killed = Inr base"
proof -
  obtain c where c: "evictable rctx cls sz ev c"
    using free_register_window[OF pre(2,3) f] by (elim exE)
  show ?thesis using pre c by (rule find_best_region_exists[OF b])
qed

text \<open>
  What the search does: it returns an aligned window at stride \<open>sz\<close> inside the file,
  not at base 0 when control flow is used, not touching \<^verbatim>\<open>already_evicted\<close>, with at
  least one free sub-unit, and of least score (one per occupied sub-unit, two per sub-unit
  in \<^verbatim>\<open>killed\<close>) among all such windows. It succeeds whenever such a window exists; in
  particular when nothing below the bound has been evicted yet, register 0 is occupied in
  a program with control flow, and at least \<open>sz\<close> sub-units below the bound are free.
\<close>

lemma find_best_region_to_evict_correct:
  assumes "bound rctx cls \<le> 2 ^ 16"
  shows "(find_best_region_to_evict rctx cls sz ev killed = Inr base \<longrightarrow>
            evictable rctx cls sz ev base
            \<and> (\<forall>c. evictable rctx cls sz ev c \<longrightarrow>
                  region_cost (used_regs rctx cls) killed base sz
                  \<le> region_cost (used_regs rctx cls) killed c sz))
       \<and> (util_is_power_of_two_or_zero sz \<and> 0 < sz \<and> bound rctx cls mod sz = 0 \<and> cls = RA_GPR
            \<and> evictable rctx cls sz ev c \<longrightarrow>
            (\<exists>b. find_best_region_to_evict rctx cls sz ev killed = Inr b))
       \<and> (util_is_power_of_two_or_zero sz \<and> 0 < sz \<and> bound rctx cls mod sz = 0 \<and> cls = RA_GPR
            \<and> (\<forall>r<bound rctx cls. r \<notin> ev) \<and> (any_cf rctx \<longrightarrow> 0 \<in> used_regs rctx cls)
            \<and> sz \<le> card {r. r < bound rctx cls \<and> r \<notin> used_regs rctx cls} \<longrightarrow>
            (\<exists>b. find_best_region_to_evict rctx cls sz ev killed = Inr b))"
  apply (intro conjI impI)
  subgoal using find_best_region_sound[OF assms] by blast
  subgoal using find_best_region_sound[OF assms] by blast
  subgoal by (elim conjE) (rule find_best_region_exists[OF assms]; assumption)
  subgoal by (elim conjE) (rule find_best_region_exists_free[OF assms]; assumption)
  done

lemmas evict_eval = find_best_region_to_evict_def UINT_MAX_def util_is_power_of_two_or_zero_def ex_rctx2_def
  ex_rctx_def evict_scan.simps bitset_test_range_def region_moves_def region_moves_step_def

lemma find_best_region_to_evict_correct_example:
  "bound ex_rctx2 RA_GPR \<le> 2 ^ 16
   \<and> find_best_region_to_evict ex_rctx2 RA_GPR 2 {} {0} = Inr 2
   \<and> evictable ex_rctx2 RA_GPR 2 {} 2"
proof -
  have b: "bound ex_rctx2 RA_GPR \<le> 2 ^ 16" by (simp add: ex_rctx2_def)
  have r: "find_best_region_to_evict ex_rctx2 RA_GPR 2 {} {0} = Inr 2"
    by (simp add: evict_eval)
  from find_best_region_to_evict_correct[OF b, of 2 "{}" "{0}" 2] b r show ?thesis by simp
qed

section \<open>Eviction by copying\<close>

text \<open>
  A copy of the pending parallel copy (\<^verbatim>\<open>struct agx_copy\<close>) and the register operand
  \<^verbatim>\<open>agx_register\<close> builds.
\<close>

record agx_copy =
  copy_dest :: nat
  copy_dest_mem :: bool
  copy_src :: agx_index

definition agx_register :: "nat \<Rightarrow> agx_size \<Rightarrow> agx_index" where
  "agx_register v sz = \<lparr> idx_type = AGX_INDEX_REGISTER, idx_value = v, idx_size = sz,
       idx_channels = 1, idx_memory = False, idx_kill = False \<rparr>"

text \<open>
  What \<^verbatim>\<open>assign_regs_by_copying\<close> updates: the context, the copy list and the
  \<^verbatim>\<open>clobbered\<close> bitset.
\<close>

record evict_state =
  es_rctx :: ra_ctx
  es_copies :: "agx_copy list"
  es_clobbered :: "nat set"

text \<open>
  The copy loop \<^verbatim>\<open>for (i = 0; i < nr; i += align)\<close>: one copy per index, with its
  two alignment assertions.
\<close>

definition evict_copy ::
  "nat \<Rightarrow> nat \<Rightarrow> agx_size \<Rightarrow> nat \<Rightarrow> agx_copy list \<Rightarrow> ra_error + agx_copy list" where
  "evict_copy new_reg reg sz i copies =
     (let copy = \<lparr> copy_dest = new_reg + i, copy_dest_mem = False,
                    copy_src = agx_register (reg + i) sz \<rparr>
      in if copy_dest copy mod agx_size_align_16 sz \<noteq> 0
           then Inl (Assertion ''new dest must be aligned'')
         else if idx_value (copy_src copy) mod agx_size_align_16 sz \<noteq> 0
           then Inl (Assertion ''src must be aligned'')
         else Inr (copies @ [copy]))"

definition stride_indices :: "nat \<Rightarrow> nat \<Rightarrow> nat list" where
  "stride_indices nr align = map (\<lambda>k. k * align) [0..<(nr + align - 1) div align]"

text \<open>
  The eviction loop \<^verbatim>\<open>for (i = 0; i < 16; ++i)\<close> with its skip \<^verbatim>\<open>i += nr - 1\<close>;
  \<open>rec\<close> is the recursive call. The local \<^verbatim>\<open>evict_set\<close> holds bits below \<open>count\<close>
  only, so a bit tested beyond it is clear. \<^verbatim>\<open>rctx->classes[cls]\<close> reads the class of
  SSA value 0, \<^verbatim>\<open>cls\<close> being \<^verbatim>\<open>RA_GPR\<close>.
\<close>

function evict_loop ::
  "(nat \<Rightarrow> nat \<Rightarrow> evict_state \<Rightarrow> (ra_error + nat \<times> evict_state) option)
   \<Rightarrow> ra_class \<Rightarrow> nat \<Rightarrow> nat \<Rightarrow> nat set \<Rightarrow> nat \<Rightarrow> evict_state
   \<Rightarrow> (ra_error + evict_state) option" where
  "evict_loop rec cls count base evict_set i st =
     (if \<not> i < 16 then Some (Inr st)
      else if i \<notin> evict_set then evict_loop rec cls count base evict_set (i + 1) st
      else
        (let rctx = es_rctx st;
             reg = base + i;
             ssa = reg_to_ssa rctx reg;
             nr = ncomps rctx ssa;
             align = agx_size_align_16 (sizes rctx ssa)
         in if \<not> 1 \<le> nr then Some (Inl (Assertion ''must be assigned''))
            else if ssa_to_reg rctx ssa \<noteq> reg then
              Some (Inl (Assertion
                ''variable must start within the range, since vectors are limited''))
            else if \<not> list_all (\<lambda>j. i + j \<in> evict_set) [0..<nr] then
              Some (Inl (Assertion
                ''variable is allocated contiguous and vectors are limited, so evicted in full''))
            else if \<not> nr < count then
              Some (Inl (Assertion ''fully contained in range that's not full''))
            else
              (case rec nr align st of
                 None \<Rightarrow> None
               | Some (Inl e) \<Rightarrow> Some (Inl e)
               | Some (Inr (new_reg, st1)) \<Rightarrow>
                   (case fold_err (evict_copy new_reg reg (sizes (es_rctx st1) ssa))
                           (stride_indices nr align) (es_copies st1) of
                      Inl e \<Rightarrow> Some (Inl e)
                    | Inr copies \<Rightarrow>
                        if classes (es_rctx st1) 0 \<noteq> cls then
                          Some (Inl (Assertion ''cls == rctx->classes[cls]''))
                        else
                          evict_loop rec cls count base evict_set (i + nr)
                            (st1\<lparr> es_copies := copies,
                                  es_clobbered := bitset_set_range (es_clobbered st1) new_reg nr,
                                  es_rctx := (set_ssa_to_reg (es_rctx st1) ssa new_reg)
                                     \<lparr> reg_to_ssa :=
                                         (reg_to_ssa (es_rctx st1))(new_reg := ssa) \<rparr> \<rparr>)))))"
  by pat_completeness auto
termination
  by (relation "measure (\<lambda>(rec, cls, count, base, evict_set, i, st). 16 - i)") auto

declare evict_loop.simps [simp del]

text \<open>
  \<^verbatim>\<open>assign_regs_by_copying\<close>, with fuel for the depth of the recursion: \<open>None\<close> is
  running out of fuel.
\<close>

fun assign_regs_by_copying ::
  "nat \<Rightarrow> nat set \<Rightarrow> agx_instr \<Rightarrow> ra_class \<Rightarrow> nat \<Rightarrow> nat \<Rightarrow> evict_state
   \<Rightarrow> (ra_error + nat \<times> evict_state) option" where
  "assign_regs_by_copying 0 killed I cls npot_count align st = None"
| "assign_regs_by_copying (Suc fuel) killed I cls npot_count align st =
     (if cls \<noteq> RA_GPR then Some (Inl (Assertion ''cls == RA_GPR''))
      else if op I = AGX_OPCODE_PHI then Some (Inl (Unreachable ''TODO''))
      else
        (let count = util_next_power_of_two npot_count in
         if \<not> align \<le> count then Some (Inl (Assertion ''still aligned''))
         else
           (case find_best_region_to_evict (es_rctx st) cls count (es_clobbered st) killed of
              Inl e \<Rightarrow> Some (Inl e)
            | Inr base \<Rightarrow>
                if \<not> count \<le> 16 then
                  Some (Inl (Assertion ''max allocation size (conservative)''))
                else
                  (let rctx = es_rctx st;
                       evict_set = set (filter (\<lambda>i. base + i \<in> used_regs rctx cls) [0..<count]);
                       st1 = st\<lparr> es_rctx := rctx\<lparr> used_regs := (used_regs rctx)
                                 (cls := bitset_set_range (used_regs rctx cls) base count) \<rparr> \<rparr>
                   in case evict_loop (assign_regs_by_copying fuel killed I cls)
                             cls count base evict_set 0 st1 of
                        None \<Rightarrow> None
                      | Some (Inl e) \<Rightarrow> Some (Inl e)
                      | Some (Inr st2) \<Rightarrow>
                          Some (Inr (base,
                            if npot_count \<noteq> count then
                              st2\<lparr> es_rctx := (es_rctx st2)\<lparr> used_regs := (used_regs (es_rctx st2))
                                (cls := bitset_clear_range (used_regs (es_rctx st2) cls)
                                          (base + npot_count) (count - npot_count)) \<rparr> \<rparr>
                            else st2))))))"




text \<open>
  The widths \<^verbatim>\<open>agx_ra\<close> records are powers of two (or 0 for a value never defined).
\<close>

definition pot_widths :: "(nat \<Rightarrow> nat) \<Rightarrow> bool" where
  "pot_widths N \<longleftrightarrow> (\<forall>v. N v \<noteq> 0 \<longrightarrow> util_next_power_of_two (N v) = N v)"

definition not_full_error :: ra_error where
  "not_full_error = Assertion ''fully contained in range that's not full''"

definition tables :: "evict_state \<Rightarrow> (nat \<Rightarrow> nat) \<times> (ra_class \<Rightarrow> nat)" where
  "tables st = (ncomps (es_rctx st), bound (es_rctx st))"

definition rec_total ::
  "(nat \<Rightarrow> nat \<Rightarrow> evict_state \<Rightarrow> (ra_error + nat \<times> evict_state) option)
    \<Rightarrow> (nat \<Rightarrow> nat) \<times> (ra_class \<Rightarrow> nat) \<Rightarrow> nat \<Rightarrow> bool" where
  "rec_total rec T count \<longleftrightarrow>
     (\<forall>ssa al st. 1 \<le> fst T ssa \<and> fst T ssa < count \<and> tables st = T \<longrightarrow>
        (\<exists>r. rec (fst T ssa) al st = Some r \<and> r \<noteq> Inl not_full_error)
        \<and> (\<forall>b st'. rec (fst T ssa) al st = Some (Inr (b, st')) \<longrightarrow> tables st' = T))"

lemma fold_err_error:
  assumes "\<And>x a b. f x a = Inl b \<Longrightarrow> P b"
  shows "fold_err f xs a = Inl b \<Longrightarrow> P b"
proof (induction xs arbitrary: a)
  case Nil
  then show ?case by simp
next
  case (Cons x xs)
  show ?case
  proof (cases "f x a")
    case (Inl e)
    with Cons.prems have "b = e" by simp
    with Inl assms show ?thesis by blast
  next
    case (Inr a')
    with Cons.prems have "fold_err f xs a' = Inl b" by simp
    then show ?thesis by (rule Cons.IH)
  qed
qed

lemma contiguous_below_count:
  assumes sub: "evict_set \<subseteq> {..<count}" and free: "i0 < count" "i0 \<notin> evict_set"
    and i: "i \<in> evict_set" and all: "list_all (\<lambda>j. i + j \<in> evict_set) [0..<nr]"
  shows "nr < (count :: nat)"
proof (rule ccontr)
  assume "\<not> nr < count"
  then have nr: "count \<le> nr" by simp
  have ic: "i < count" using sub i by auto
  have mem: "\<And>j. j < nr \<Longrightarrow> i + j \<in> evict_set" using all by (simp add: list_all_iff)
  show False
  proof (cases "i \<le> i0")
    case True
    then have "i0 - i < nr" using free(1) nr by simp
    from mem[OF this] True free(2) show False by simp
  next
    case False
    then have "0 < i" by simp
    then have "count - i < nr" using nr ic by simp
    from mem[OF this] ic have "count \<in> evict_set" by simp
    with sub show False by auto
  qed
qed

lemma evict_loop_total:
  assumes rec: "rec_total rec T count"
    and sub: "evict_set \<subseteq> {..<count}" and free: "i0 < count" "i0 \<notin> evict_set"
  shows "tables st = T \<Longrightarrow>
         (\<exists>r. evict_loop rec cls count base evict_set i st = Some r \<and> r \<noteq> Inl not_full_error)
         \<and> (\<forall>st'. evict_loop rec cls count base evict_set i st = Some (Inr st')
               \<longrightarrow> tables st' = T)"
proof (induction "16 - i" arbitrary: i st rule: less_induct)
  case less
  note T = less.prems
  show ?case
  proof (cases "i < 16")
    case False
    then show ?thesis using T by (subst evict_loop.simps, subst evict_loop.simps) simp
  next
    case i16: True
    show ?thesis
    proof (cases "i \<in> evict_set")
      case False
      have "evict_loop rec cls count base evict_set i st =
            evict_loop rec cls count base evict_set (i + 1) st"
        using i16 False by (subst evict_loop.simps) simp
      moreover have "16 - (i + 1) < 16 - i" using i16 by simp
      ultimately show ?thesis using less.hyps[of "i + 1" st] T by simp
    next
      case True
      let ?rctx = "es_rctx st"
      let ?reg = "base + i"
      let ?ssa = "reg_to_ssa ?rctx ?reg"
      let ?nr = "ncomps ?rctx ?ssa"
      let ?al = "agx_size_align_16 (sizes ?rctx ?ssa)"
      show ?thesis
      proof (cases "1 \<le> ?nr \<and> ssa_to_reg ?rctx ?ssa = ?reg
                    \<and> list_all (\<lambda>j. i + j \<in> evict_set) [0..<?nr]")
        case False
        have "\<exists>e. evict_loop rec cls count base evict_set i st = Some (Inl e)
                      \<and> e \<noteq> not_full_error"
        proof (cases "1 \<le> ?nr")
          case n1: False
          then have "evict_loop rec cls count base evict_set i st =
              Some (Inl (Assertion ''must be assigned''))"
            using i16 True by (subst evict_loop.simps) (simp add: Let_def)
          then show ?thesis by (simp add: not_full_error_def)
        next
          case n1: True
          show ?thesis
          proof (cases "ssa_to_reg ?rctx ?ssa = ?reg")
            case n2: False
            then have "evict_loop rec cls count base evict_set i st =
              Some (Inl (Assertion
                ''variable must start within the range, since vectors are limited''))"
              using i16 True n1 by (subst evict_loop.simps) (simp add: Let_def)
            then show ?thesis by (simp add: not_full_error_def)
          next
            case n2: True
            then have "\<not> list_all (\<lambda>j. i + j \<in> evict_set) [0..<?nr]" using False n1 by blast
            then have "evict_loop rec cls count base evict_set i st =
              Some (Inl (Assertion
                ''variable is allocated contiguous and vectors are limited, so evicted in full''))"
              using i16 True n1 n2 by (subst evict_loop.simps) (simp add: Let_def)
            then show ?thesis by (simp add: not_full_error_def)
          qed
        qed
        then show ?thesis by auto
      next
        case ok3: True
        then have lt: "?nr < count"
          using contiguous_below_count[OF sub free True] by blast
        with ok3 have ok: "1 \<le> ?nr \<and> ssa_to_reg ?rctx ?ssa = ?reg
                    \<and> list_all (\<lambda>j. i + j \<in> evict_set) [0..<?nr] \<and> ?nr < count" by simp
        have nrN: "?nr = fst T ?ssa" using T by (auto simp: tables_def)
        from rec ok T obtain r where r: "rec ?nr ?al st = Some r" "r \<noteq> Inl not_full_error"
          and pres: "\<And>b st'. rec ?nr ?al st = Some (Inr (b, st')) \<Longrightarrow> tables st' = T"
          unfolding rec_total_def nrN by blast
        show ?thesis
        proof (cases r)
          case (Inl e)
          then have "evict_loop rec cls count base evict_set i st = Some (Inl e)"
            using i16 True ok r by (subst evict_loop.simps) (simp add: Let_def)
          then show ?thesis using r(2) Inl by simp
        next
          case (Inr p)
          obtain new_reg st1 where p: "p = (new_reg, st1)" by (cases p)
          have T1: "tables st1 = T" using pres r Inr p by simp
          let ?cp = "fold_err (evict_copy new_reg ?reg (sizes (es_rctx st1) ?ssa))
                           (stride_indices ?nr ?al) (es_copies st1)"
          show ?thesis
          proof (cases "?cp")
            case (Inl e)
            have "e \<noteq> not_full_error"
            proof -
              have "\<And>x a b. evict_copy new_reg ?reg (sizes (es_rctx st1) ?ssa) x a = Inl b
                       \<Longrightarrow> b \<noteq> not_full_error"
                by (auto simp: evict_copy_def Let_def not_full_error_def split: if_splits)
              then show ?thesis
                by (rule fold_err_error[where P = "\<lambda>b. b \<noteq> not_full_error", OF _ Inl])
            qed
            moreover have "evict_loop rec cls count base evict_set i st = Some (Inl e)"
              using i16 True ok r Inr p Inl by (subst evict_loop.simps) (simp add: Let_def)
            ultimately show ?thesis by simp
          next
            case cp: (Inr copies)
            show ?thesis
            proof (cases "classes (es_rctx st1) 0 \<noteq> cls")
              case True
              then have "evict_loop rec cls count base evict_set i st =
                    Some (Inl (Assertion ''cls == rctx->classes[cls]''))"
                using i16 \<open>i \<in> evict_set\<close> ok r Inr p cp
                by (subst evict_loop.simps) (simp add: Let_def)
              then show ?thesis by (simp add: not_full_error_def)
            next
              case False
              let ?st2 = "st1\<lparr> es_copies := copies,
                      es_clobbered := bitset_set_range (es_clobbered st1) new_reg ?nr,
                      es_rctx := (set_ssa_to_reg (es_rctx st1) ?ssa new_reg)
                         \<lparr> reg_to_ssa := (reg_to_ssa (es_rctx st1))(new_reg := ?ssa) \<rparr> \<rparr>"
              have eq: "evict_loop rec cls count base evict_set i st =
                  evict_loop rec cls count base evict_set (i + ?nr) ?st2"
                using i16 \<open>i \<in> evict_set\<close> ok r Inr p cp False
                by (subst evict_loop.simps) (simp add: Let_def)
              have T2: "tables ?st2 = T" using T1 by (simp add: tables_def)
              have "1 \<le> ?nr" using ok by blast
              then have "16 - (i + ?nr) < 16 - i" using i16 by linarith
              from less.hyps[OF this T2] show ?thesis unfolding eq .
            qed
          qed
        qed
      qed
    qed
  qed
qed

lemma assign_regs_by_copying_total:
  assumes pot: "pot_widths (fst T)" and b: "snd T RA_GPR \<le> 2 ^ 16"
  shows "tables st = T \<Longrightarrow> util_next_power_of_two npot_count \<le> fuel \<Longrightarrow>
     (\<exists>r. assign_regs_by_copying fuel killed I cls npot_count align st = Some r
           \<and> r \<noteq> Inl not_full_error)
     \<and> (\<forall>b st'. assign_regs_by_copying fuel killed I cls npot_count align st = Some (Inr (b, st'))
            \<longrightarrow> tables st' = T)"
proof (induction fuel arbitrary: npot_count align st)
  case 0
  then show ?case using util_next_power_of_two_pos[of npot_count] by simp
next
  case (Suc fuel)
  let ?count = "util_next_power_of_two npot_count"
  let ?rctx = "es_rctx st"
  show ?case
  proof (cases "cls \<noteq> RA_GPR \<or> op I = AGX_OPCODE_PHI \<or> \<not> align \<le> ?count")
    case True
    then have "\<exists>e. assign_regs_by_copying (Suc fuel) killed I cls npot_count align st = Some (Inl e)
                  \<and> e \<noteq> not_full_error"
      by (auto simp: Let_def not_full_error_def)
    then show ?thesis by auto
  next
    case pre: False
    then have cls: "cls = RA_GPR" by simp
    show ?thesis
    proof (cases "find_best_region_to_evict ?rctx cls ?count (es_clobbered st) killed")
      case (Inl e)
      have "e \<noteq> not_full_error"
        using Inl by (auto simp: find_best_region_to_evict_def not_full_error_def
            split: if_splits prod.splits)
      moreover have "assign_regs_by_copying (Suc fuel) killed I cls npot_count align st = Some (Inl e)"
        using pre Inl by (simp add: Let_def)
      ultimately show ?thesis by simp
    next
      case (Inr base)
      show ?thesis
      proof (cases "?count \<le> 16")
        case False
        then have "assign_regs_by_copying (Suc fuel) killed I cls npot_count align st =
            Some (Inl (Assertion ''max allocation size (conservative)''))"
          using pre Inr by (simp add: Let_def)
        then show ?thesis by (simp add: not_full_error_def)
      next
        case c16: True
        let ?es = "set (filter (\<lambda>i. base + i \<in> used_regs ?rctx cls) [0..<?count])"
        let ?st1 = "st\<lparr> es_rctx := ?rctx\<lparr> used_regs := (used_regs ?rctx)
                                 (cls := bitset_set_range (used_regs ?rctx cls) base ?count) \<rparr> \<rparr>"
        have bnd: "bound ?rctx cls \<le> 2 ^ 16" using Suc.prems(1) b cls by (auto simp: tables_def)
        have ev: "evictable ?rctx cls ?count (es_clobbered st) base"
          using find_best_region_sound[OF bnd Inr] by simp
        then obtain r0 where r0: "r0 \<in> set [base..<base + ?count]" "r0 \<notin> used_regs ?rctx cls"
          by (auto simp: evictable_def region_has_free_def list_ex_iff)
        have sub: "?es \<subseteq> {..<?count}" by auto
        have f1: "r0 - base < ?count" using r0(1) by auto
        have f2: "r0 - base \<notin> ?es" using r0 by auto
        have T1: "tables ?st1 = T" using Suc.prems(1) by (simp add: tables_def)
        have rec: "rec_total (assign_regs_by_copying fuel killed I cls) T ?count"
          unfolding rec_total_def
        proof (intro allI impI)
          fix ssa al st0
          assume a: "1 \<le> fst T ssa \<and> fst T ssa < ?count \<and> tables st0 = T"
          then have "util_next_power_of_two (fst T ssa) = fst T ssa"
            using pot by (simp add: pot_widths_def)
          then have "util_next_power_of_two (fst T ssa) \<le> fuel"
            using a Suc.prems(2) by simp
          with a Suc.IH[of st0 "fst T ssa" al]
          show "(\<exists>r. assign_regs_by_copying fuel killed I cls (fst T ssa) al st0 = Some r
                     \<and> r \<noteq> Inl not_full_error)
             \<and> (\<forall>b st'. assign_regs_by_copying fuel killed I cls (fst T ssa) al st0
                   = Some (Inr (b, st')) \<longrightarrow> tables st' = T)"
            by blast
        qed
        from evict_loop_total[OF rec sub f1 f2 T1, of cls base 0]
        obtain r where r: "evict_loop (assign_regs_by_copying fuel killed I cls) cls ?count base
                 ?es 0 ?st1 = Some r" "r \<noteq> Inl not_full_error"
          and pres: "\<And>st'. r = Inr st' \<Longrightarrow> tables st' = T"
          by auto
        show ?thesis
        proof (cases r)
          case (Inl e)
          then have "assign_regs_by_copying (Suc fuel) killed I cls npot_count align st = Some (Inl e)"
            using pre Inr c16 r(1) by (simp add: Let_def)
          then show ?thesis using r(2) Inl by simp
        next
          case st2: (Inr st2)
          have T2: "tables st2 = T" using pres st2 by simp
          show ?thesis
            using pre Inr c16 r(1) st2 T2 by (auto simp: Let_def tables_def)
        qed
      qed
    qed
  qed
qed



lemma evict_loop_mono:
  assumes m: "\<And>nr al st r. rec nr al st = Some r \<Longrightarrow> rec' nr al st = Some r"
  shows "evict_loop rec cls count base evict_set i st = Some r \<Longrightarrow>
         evict_loop rec' cls count base evict_set i st = Some r"
proof (induction "16 - i" arbitrary: i st rule: less_induct)
  case less
  note res = less.prems
  show ?case
  proof (cases "i < 16")
    case False
    then have "\<And>rec. evict_loop rec cls count base evict_set i st = Some (Inr st)"
      by (subst evict_loop.simps) simp
    with res show ?thesis by simp
  next
    case i16: True
    show ?thesis
    proof (cases "i \<in> evict_set")
      case False
      have eq: "\<And>rec. evict_loop rec cls count base evict_set i st =
            evict_loop rec cls count base evict_set (i + 1) st"
        using i16 False by (subst evict_loop.simps) simp
      have "16 - (i + 1) < 16 - i" using i16 by simp
      from less.hyps[OF this] res show ?thesis unfolding eq by simp
    next
      case True
      let ?rctx = "es_rctx st"
      let ?reg = "base + i"
      let ?ssa = "reg_to_ssa ?rctx ?reg"
      let ?nr = "ncomps ?rctx ?ssa"
      let ?al = "agx_size_align_16 (sizes ?rctx ?ssa)"
      show ?thesis
      proof (cases "1 \<le> ?nr \<and> ssa_to_reg ?rctx ?ssa = ?reg
                    \<and> list_all (\<lambda>j. i + j \<in> evict_set) [0..<?nr] \<and> ?nr < count")
        case False
        have "evict_loop rec cls count base evict_set i st =
              evict_loop rec' cls count base evict_set i st"
          using i16 True False
          by (simp add: evict_loop.simps[of rec cls count base evict_set i st]
              evict_loop.simps[of rec' cls count base evict_set i st] Let_def)
        with res show ?thesis by simp
      next
        case ok: True
        have unf: "\<And>rec. evict_loop rec cls count base evict_set i st =
            (case rec ?nr ?al st of
                 None \<Rightarrow> None
               | Some (Inl e) \<Rightarrow> Some (Inl e)
               | Some (Inr (new_reg, st1)) \<Rightarrow>
                   (case fold_err (evict_copy new_reg ?reg (sizes (es_rctx st1) ?ssa))
                           (stride_indices ?nr ?al) (es_copies st1) of
                      Inl e \<Rightarrow> Some (Inl e)
                    | Inr copies \<Rightarrow>
                        if classes (es_rctx st1) 0 \<noteq> cls then
                          Some (Inl (Assertion ''cls == rctx->classes[cls]''))
                        else
                          evict_loop rec cls count base evict_set (i + ?nr)
                            (st1\<lparr> es_copies := copies,
                                  es_clobbered := bitset_set_range (es_clobbered st1) new_reg ?nr,
                                  es_rctx := (set_ssa_to_reg (es_rctx st1) ?ssa new_reg)
                                     \<lparr> reg_to_ssa :=
                                         (reg_to_ssa (es_rctx st1))(new_reg := ?ssa) \<rparr> \<rparr>)))"
          using i16 True ok by (subst evict_loop.simps) (simp add: Let_def)
        from res obtain r0 where r0: "rec ?nr ?al st = Some r0"
          unfolding unf by (cases "rec ?nr ?al st") auto
        then have r0': "rec' ?nr ?al st = Some r0" by (rule m)
        have "1 \<le> ?nr" using ok by blast
        then have dec: "16 - (i + ?nr) < 16 - i" using i16 by linarith
        show ?thesis
          using res less.hyps[OF dec] unfolding unf r0 r0'
          by (auto split: sum.splits prod.splits if_splits)
      qed
    qed
  qed
qed

lemma assign_regs_by_copying_Suc_gpr:
  "assign_regs_by_copying fuel killed I RA_GPR npot_count align st = Some r \<Longrightarrow>
   assign_regs_by_copying (Suc fuel) killed I RA_GPR npot_count align st = Some r"
proof (induction fuel arbitrary: npot_count align st r)
  case 0
  then show ?case by simp
next
  case (Suc fuel)
  have m: "\<And>nr al st r. assign_regs_by_copying fuel killed I RA_GPR nr al st = Some r \<Longrightarrow>
      assign_regs_by_copying (Suc fuel) killed I RA_GPR nr al st = Some r"
    by (rule Suc.IH)
  let ?count = "util_next_power_of_two npot_count"
  show ?case
  proof (cases "op I = AGX_OPCODE_PHI \<or> \<not> align \<le> ?count \<or> \<not> ?count \<le> 16")
    case True
    then have "assign_regs_by_copying (Suc (Suc fuel)) killed I RA_GPR npot_count align st =
               assign_regs_by_copying (Suc fuel) killed I RA_GPR npot_count align st"
      by (auto simp: Let_def split: sum.splits)
    with Suc.prems show ?thesis by simp
  next
    case pre: False
    show ?thesis
    proof (cases "find_best_region_to_evict (es_rctx st) RA_GPR ?count (es_clobbered st) killed")
      case (Inl e)
      then have "assign_regs_by_copying (Suc (Suc fuel)) killed I RA_GPR npot_count align st =
               assign_regs_by_copying (Suc fuel) killed I RA_GPR npot_count align st"
        using pre by (simp add: Let_def)
      with Suc.prems show ?thesis by simp
    next
      case (Inr base)
      let ?rctx = "es_rctx st"
      let ?es = "set (filter (\<lambda>i. base + i \<in> used_regs ?rctx RA_GPR) [0..<?count])"
      let ?st1 = "st\<lparr> es_rctx := ?rctx\<lparr> used_regs := (used_regs ?rctx)
                                 (RA_GPR := bitset_set_range (used_regs ?rctx RA_GPR) base ?count) \<rparr> \<rparr>"
      have unf: "\<And>f. assign_regs_by_copying (Suc f) killed I RA_GPR npot_count align st =
          (case evict_loop (assign_regs_by_copying f killed I RA_GPR) RA_GPR ?count base ?es 0 ?st1 of
                        None \<Rightarrow> None
                      | Some (Inl e) \<Rightarrow> Some (Inl e)
                      | Some (Inr st2) \<Rightarrow>
                          Some (Inr (base,
                            if npot_count \<noteq> ?count then
                              st2\<lparr> es_rctx := (es_rctx st2)\<lparr> used_regs := (used_regs (es_rctx st2))
                                (RA_GPR := bitset_clear_range (used_regs (es_rctx st2) RA_GPR)
                                          (base + npot_count) (?count - npot_count)) \<rparr> \<rparr>
                            else st2)))"
        using pre Inr by (simp add: Let_def)
      from Suc.prems obtain x where x: "evict_loop (assign_regs_by_copying fuel killed I RA_GPR)
            RA_GPR ?count base ?es 0 ?st1 = Some x"
        unfolding unf
        by (cases "evict_loop (assign_regs_by_copying fuel killed I RA_GPR) RA_GPR ?count base ?es 0 ?st1")
           auto
      have x': "evict_loop (assign_regs_by_copying (Suc fuel) killed I RA_GPR)
            RA_GPR ?count base ?es 0 ?st1 = Some x"
        using m x by (rule evict_loop_mono)
      from Suc.prems show ?thesis unfolding unf x x' .
    qed
  qed
qed

lemma assign_regs_by_copying_Suc:
  assumes "assign_regs_by_copying fuel killed I cls npot_count align st = Some r"
  shows "assign_regs_by_copying (Suc fuel) killed I cls npot_count align st = Some r"
proof (cases cls)
  case RA_GPR
  show ?thesis
    using assms unfolding RA_GPR by (rule assign_regs_by_copying_Suc_gpr)
next
  case RA_MEM
  then show ?thesis using assms by (cases fuel) simp_all
qed

lemma assign_regs_by_copying_more_fuel:
  "assign_regs_by_copying fuel killed I cls npot_count align st = Some r \<Longrightarrow>
   assign_regs_by_copying (fuel + k) killed I cls npot_count align st = Some r"
  by (induction k) (simp_all add: assign_regs_by_copying_Suc del: assign_regs_by_copying.simps)


lemma npot_from_power: "\<exists>k. npot_from p x = p * 2 ^ k"
proof (induction p x rule: npot_from.induct)
  case (1 p x)
  show ?case
  proof (cases "p = 0 \<or> x \<le> p")
    case True
    then have "npot_from p x = p * 2 ^ 0" by (subst npot_from.simps) simp
    then show ?thesis by blast
  next
    case False
    with 1 obtain k where "npot_from (2 * p) x = 2 * p * 2 ^ k" by blast
    then have "npot_from p x = p * 2 ^ Suc k"
      using False by (subst npot_from.simps) simp
    then show ?thesis by blast
  qed
qed

lemma npot_mod_256:
  assumes "util_next_power_of_two x mod 256 \<noteq> 0"
  shows "util_next_power_of_two (util_next_power_of_two x mod 256)
         = util_next_power_of_two x mod 256"
proof -
  obtain k where k: "util_next_power_of_two x = 2 ^ k"
    using npot_from_power[of 1 x] by (auto simp: util_next_power_of_two_def)
  have "k < 8"
  proof (rule ccontr)
    assume "\<not> k < 8"
    then obtain j where "k = 8 + j" by (metis le_add_diff_inverse not_less)
    then have "(2::nat) ^ k mod 256 = 0" by (simp add: power_add)
    with assms k show False by simp
  qed
  then have "(2::nat) ^ k < 2 ^ 8" by (rule power_strict_increasing) simp
  then have "util_next_power_of_two x mod 256 = util_next_power_of_two x" using k by simp
  then show ?thesis by (simp add: util_next_power_of_two_idem)
qed

lemma fold_src_ncomps:
  "t_ncomps (fold (\<lambda>s t'. t'\<lparr> t_src_to_collect_phi :=
        (t_src_to_collect_phi t')(idx_value s := Some I) \<rparr>) xs t) = t_ncomps t"
  by (induction xs arbitrary: t) simp_all

lemma agx_ra_gather_pot_widths:
  assumes "agx_ra_gather ctx = Inr t"
  shows "pot_widths (t_ncomps t)"
proof (rule fold_err_invariant[where P = "\<lambda>t. pot_widths (t_ncomps t)",
      OF assms[unfolded agx_ra_gather_def]])
  show "pot_widths (t_ncomps \<lparr> t_ncomps = (\<lambda>_. 0), t_sizes = (\<lambda>_. AGX_SIZE_16),
      t_classes = (\<lambda>_. RA_GPR), t_src_to_collect_phi = (\<lambda>_. None), t_max_ncomps = 1 \<rparr>)"
    by (simp add: pot_widths_def)
next
  fix I a b
  assume "I \<in> set (all_instrs ctx)"
    and a: "pot_widths (t_ncomps a)" and r: "ra_gather_instr I a = Inr b"
  let ?a0 = "if op I = AGX_OPCODE_COLLECT \<or> op I = AGX_OPCODE_PHI
        then fold (\<lambda>s t'. t'\<lparr> t_src_to_collect_phi :=
                                 (t_src_to_collect_phi t')(idx_value s := Some I) \<rparr>)
                  (ssa_srcs I) a
        else a"
  have a0: "pot_widths (t_ncomps ?a0)" using a by (simp add: fold_src_ncomps)
  have r': "fold_err ra_gather_dest (ssa_dests I) ?a0 = Inr b"
    using r by (simp add: ra_gather_instr_def)
  show "pot_widths (t_ncomps b)"
  proof (rule fold_err_invariant[where P = "\<lambda>t. pot_widths (t_ncomps t)", OF r' a0])
    fix d u w
    assume "d \<in> set (ssa_dests I)"
      and u: "pot_widths (t_ncomps u)" and g: "ra_gather_dest d u = Inr w"
    from g have w: "t_ncomps w = (t_ncomps u)
        (idx_value d := util_next_power_of_two (agx_index_size_16 d) mod 256)"
      by (auto simp: ra_gather_dest_def Let_def split: if_splits)
    show "pot_widths (t_ncomps w)"
      unfolding pot_widths_def w using u npot_mod_256 by (auto simp: pot_widths_def)
  qed
qed

text \<open>
  C6: with the widths that \<^verbatim>\<open>agx_ra\<close> records (powers of two) and a register file
  within the range of the register numbers, the recursion of \<^verbatim>\<open>assign_regs_by_copying\<close>
  is bounded by the rounded width of the request: with that much fuel or more the procedure
  returns, with the same result; and the assertion that an evicted value is narrower than
  the window never fails, since the window has a free sub-unit.
\<close>

theorem assign_regs_by_copying_terminates:
  assumes "pot_widths (ncomps (es_rctx st))" and "bound (es_rctx st) RA_GPR \<le> 2 ^ 16"
  shows "\<exists>r. r \<noteq> Inl not_full_error
           \<and> (\<forall>fuel\<ge>util_next_power_of_two npot_count.
                 assign_regs_by_copying fuel killed I cls npot_count align st = Some r)"
proof -
  let ?f0 = "util_next_power_of_two npot_count"
  have T: "tables st = (ncomps (es_rctx st), bound (es_rctx st))" by (simp add: tables_def)
  have "\<exists>r. assign_regs_by_copying ?f0 killed I cls npot_count align st = Some r
           \<and> r \<noteq> Inl not_full_error"
    using assign_regs_by_copying_total[where T = "(ncomps (es_rctx st), bound (es_rctx st))"
      and st = st and fuel = ?f0 and npot_count = npot_count and killed = killed and I = I
      and cls = cls and align = align, OF _ _ T] assms by simp
  then obtain r where r: "assign_regs_by_copying ?f0 killed I cls npot_count align st = Some r"
    "r \<noteq> Inl not_full_error"
    by blast
  have "\<forall>fuel\<ge>?f0. assign_regs_by_copying fuel killed I cls npot_count align st = Some r"
  proof (intro allI impI)
    fix fuel assume "?f0 \<le> fuel"
    then obtain k where "fuel = ?f0 + k" by (metis le_add_diff_inverse)
    then show "assign_regs_by_copying fuel killed I cls npot_count align st = Some r"
      using assign_regs_by_copying_more_fuel[OF r(1), of k] by simp
  qed
  with r(2) show ?thesis by blast
qed

definition ex_rctx3 :: ra_ctx where
  "ex_rctx3 = ex_rctx\<lparr> bound := (\<lambda>_. 8), used_regs := (\<lambda>_. {0, 2, 5, 7}),
      ssa_to_reg := (\<lambda>v. if v = 0 then 0 else if v = 1 then 2 else if v = 2 then 5 else 7),
      reg_to_ssa := (\<lambda>r. if r = 0 then 0 else if r = 2 then 1 else if r = 5 then 2 else 3) \<rparr>"

definition ex_instr :: agx_instr where
  "ex_instr = \<lparr> op = AGX_OPCODE_OTHER 0, dest = [ssa_idx 9 AGX_SIZE_16 2 False], src = [] \<rparr>"

definition ex_evict_state :: evict_state where
  "ex_evict_state = \<lparr> es_rctx = ex_rctx3, es_copies = [], es_clobbered = {} \<rparr>"

lemma ex_pot_widths: "pot_widths (ncomps (es_rctx ex_evict_state))"
  by (simp add: pot_widths_def ex_evict_state_def ex_rctx3_def ex_rctx_def
      util_next_power_of_two_def npot_from.simps)

theorem assign_regs_by_copying_terminates_witness:
  "\<exists>r. r \<noteq> Inl not_full_error
     \<and> assign_regs_by_copying 2 {} ex_instr RA_GPR 2 2 ex_evict_state = Some r"
proof -
  have b: "bound (es_rctx ex_evict_state) RA_GPR \<le> 2 ^ 16"
    by (simp add: ex_evict_state_def ex_rctx3_def)
  have n: "util_next_power_of_two 2 = 2"
    by (simp add: util_next_power_of_two_def npot_from.simps)
  from assign_regs_by_copying_terminates[OF ex_pot_widths b, of 2 "{}" ex_instr RA_GPR 2]
  show ?thesis using n by auto
qed

section \<open>Relocating killed sources into the window\<close>

text \<open>
  The collection loop of \<^verbatim>\<open>insert_copies_for_clobbered_killed\<close>: one SSA source at
  a time, into \<^verbatim>\<open>vars\<close>.
\<close>

definition collect_killed_src ::
  "ra_ctx \<Rightarrow> nat set \<Rightarrow> agx_index \<Rightarrow> nat list \<Rightarrow> ra_error + nat list" where
  "collect_killed_src rctx clobbered s vars =
     (if idx_kill s \<and> ra_class_for_index s = RA_GPR
         \<and> ssa_to_reg rctx (idx_value s) \<in> clobbered
      then (if \<not> length vars < 16
            then Inl (Assertion ''cannot clobber more than max variable size'')
            else Inr (vars @ [idx_value s]))
      else Inr vars)"

text \<open>The packing loop, one variable at a time, on (context, copies, base).\<close>

definition pack_var ::
  "nat \<Rightarrow> ra_ctx \<times> agx_copy list \<times> nat \<Rightarrow> ra_error + ra_ctx \<times> agx_copy list \<times> nat" where
  "pack_var var st =
     (case st of (rctx, copies, base) \<Rightarrow>
        let var_base = ssa_to_reg rctx var;
            var_count = ncomps rctx var;
            var_align = agx_size_align_16 (sizes rctx var)
        in if classes rctx var \<noteq> RA_GPR then Inl (Assertion ''construction'')
           else if base mod var_align \<noteq> 0 then Inl (Assertion ''induction'')
           else if var_count mod var_align \<noteq> 0 then Inl (Assertion ''no partial variables'')
           else Inr ((set_ssa_to_reg rctx var base)\<lparr> reg_to_ssa := (reg_to_ssa rctx)(base := var) \<rparr>,
                     copies @ map (\<lambda>j. \<lparr> copy_dest = base + j, copy_dest_mem = False,
                                           copy_src = agx_register (var_base + j) (sizes rctx var) \<rparr>)
                                  (stride_indices var_count var_align),
                     base + var_count))"

text \<open>
  \<^verbatim>\<open>insert_copies_for_clobbered_killed\<close>. The library sort \<^verbatim>\<open>util_qsort_r\<close>, called
  with the comparator \<^verbatim>\<open>sort_by_size\<close>, is a parameter: C leaves the order of equal
  elements open.
\<close>

definition insert_copies_for_clobbered_killed ::
  "(nat list \<Rightarrow> nat list) \<Rightarrow> evict_state \<Rightarrow> nat \<Rightarrow> nat \<Rightarrow> agx_instr \<Rightarrow> ra_error + evict_state"
where
  "insert_copies_for_clobbered_killed util_qsort_r st reg count I =
     (let rctx = es_rctx st in
      if reg = 0 \<and> any_cf rctx then Inl (Assertion ''r0l is never moved'')
      else
        (let clobbered = bitset_set_range (es_clobbered st) reg count in
         case fold_err (collect_killed_src rctx clobbered) (ssa_srcs I) [] of
           Inl e \<Rightarrow> Inl e
         | Inr collected \<Rightarrow>
             if length collected = 0 then Inr (st\<lparr> es_clobbered := clobbered \<rparr>)
             else
               (case util_qsort_r collected of
                  [] \<Rightarrow> Inl (Undefined ''vars[0]'')
                | var0 # rest \<Rightarrow>
                    if reg mod agx_size_align_16 (sizes rctx var0) \<noteq> 0 then
                      Inl (Assertion
                        ''destination alignment >= largest killed source alignment'')
                    else
                      (case fold_err pack_var (var0 # rest) (rctx, es_copies st, reg) of
                         Inl e \<Rightarrow> Inl e
                       | Inr (rctx', copies, base) \<Rightarrow>
                           if \<not> base \<le> reg + count then Inl (Assertion ''no overflow'')
                           else Inr \<lparr> es_rctx = rctx', es_copies = copies,
                                      es_clobbered = clobbered \<rparr>))))"

text \<open>
  The comparator \<^verbatim>\<open>sort_by_size\<close> (the difference of the two \<^verbatim>\<open>enum agx_size\<close>
  values) and what a sort with it guarantees on a list: a permutation in an order the
  comparator accepts.
\<close>

fun size_rank :: "agx_size \<Rightarrow> nat" where
  "size_rank AGX_SIZE_16 = 0"
| "size_rank AGX_SIZE_32 = 1"
| "size_rank AGX_SIZE_64 = 2"

definition sort_by_size :: "ra_ctx \<Rightarrow> nat \<Rightarrow> nat \<Rightarrow> int" where
  "sort_by_size rctx a b = int (size_rank (sizes rctx b)) - int (size_rank (sizes rctx a))"

definition qsort_spec :: "ra_ctx \<Rightarrow> (nat list \<Rightarrow> nat list) \<Rightarrow> nat list \<Rightarrow> bool" where
  "qsort_spec rctx q vs \<longleftrightarrow>
     (\<forall>x. count_list (q vs) x = count_list vs x)
     \<and> sorted_wrt (\<lambda>a b. sort_by_size rctx a b \<le> 0) (q vs)"

text \<open>The claim's side: where the \<open>k\<close>-th variable of the sorted list is placed.\<close>

definition pack_offset :: "ra_ctx \<Rightarrow> nat \<Rightarrow> nat list \<Rightarrow> nat \<Rightarrow> nat" where
  "pack_offset rctx reg vars k = reg + sum_list (map (ncomps rctx) (take k vars))"

definition ex_sort :: "ra_ctx \<Rightarrow> nat list \<Rightarrow> nat list" where
  "ex_sort rctx vs = rev (sort_key (\<lambda>v. size_rank (sizes rctx v)) vs)"


definition ex_rctx4 :: ra_ctx where
  "ex_rctx4 = ex_rctx\<lparr> ncomps := (\<lambda>v. if v = 1 then 2 else 1),
      sizes := (\<lambda>v. if v = 1 then AGX_SIZE_32 else AGX_SIZE_16),
      ssa_to_reg := (\<lambda>v. if v = 0 then 4 else 6),
      reg_to_ssa := (\<lambda>r. if r = 4 then 0 else 1) \<rparr>"

definition ex_instr2 :: agx_instr where
  "ex_instr2 = \<lparr> op = AGX_OPCODE_OTHER 0, dest = [ssa_idx 9 AGX_SIZE_16 4 False],
     src = [ssa_idx 0 AGX_SIZE_16 1 True, ssa_idx 1 AGX_SIZE_32 1 True] \<rparr>"

definition ex_evict_state2 :: evict_state where
  "ex_evict_state2 = \<lparr> es_rctx = ex_rctx4, es_copies = [], es_clobbered = {} \<rparr>"


lemma pack_var_tables:
  assumes "pack_var v (rctx, copies, base) = Inr (rctx', copies', base')"
  shows "ncomps rctx' = ncomps rctx" "sizes rctx' = sizes rctx" "classes rctx' = classes rctx"
    "base' = base + ncomps rctx v" "base mod agx_size_align_16 (sizes rctx v) = 0"
    "ncomps rctx v mod agx_size_align_16 (sizes rctx v) = 0"
    "ssa_to_reg rctx' = (ssa_to_reg rctx)(v := base mod 2 ^ 16)"
  using assms
  by (auto simp: pack_var_def Let_def set_ssa_to_reg_def split: if_splits)

lemma pack_fold:
  assumes "fold_err pack_var vars (rctx, copies, base) = Inr (rctx', copies', base')"
  shows "base' = base + sum_list (map (ncomps rctx) vars)
     \<and> ncomps rctx' = ncomps rctx \<and> sizes rctx' = sizes rctx
     \<and> (\<forall>k<length vars. (base + sum_list (map (ncomps rctx) (take k vars)))
            mod agx_size_align_16 (sizes rctx (vars ! k)) = 0)
     \<and> (\<forall>v\<in>set vars. \<exists>k<length vars. vars ! k = v
            \<and> ssa_to_reg rctx' v = (base + sum_list (map (ncomps rctx) (take k vars))) mod 2 ^ 16)
     \<and> (\<forall>v. v \<notin> set vars \<longrightarrow> ssa_to_reg rctx' v = ssa_to_reg rctx v)"
  using assms
proof (induction vars arbitrary: rctx copies base)
  case Nil
  then show ?case by simp
next
  case (Cons v vs)
  from Cons.prems obtain rctx1 copies1 base1 where
    p: "pack_var v (rctx, copies, base) = Inr (rctx1, copies1, base1)"
    and f: "fold_err pack_var vs (rctx1, copies1, base1) = Inr (rctx', copies', base')"
    by (auto split: sum.splits)
  note t = pack_var_tables[OF p]
  note IH = Cons.IH[OF f, unfolded t(1,2,4)]
  let ?off = "\<lambda>k xs. base + sum_list (map (ncomps rctx) (take k xs))"
  have a: "base' = base + sum_list (map (ncomps rctx) (v # vs))" using IH by simp
  have b: "\<forall>k<length (v # vs). ?off k (v # vs) mod agx_size_align_16 (sizes rctx ((v # vs) ! k)) = 0"
  proof (intro allI impI)
    fix k assume k: "k < length (v # vs)"
    show "?off k (v # vs) mod agx_size_align_16 (sizes rctx ((v # vs) ! k)) = 0"
    proof (cases k)
      case 0
      then show ?thesis using t(5) by simp
    next
      case (Suc j)
      then have "j < length vs" using k by simp
      with IH have "(base + ncomps rctx v + sum_list (map (ncomps rctx) (take j vs)))
            mod agx_size_align_16 (sizes rctx (vs ! j)) = 0" by blast
      then show ?thesis using Suc by (simp add: add.assoc)
    qed
  qed
  have c: "\<forall>u\<in>set (v # vs). \<exists>k<length (v # vs). (v # vs) ! k = u
            \<and> ssa_to_reg rctx' u = ?off k (v # vs) mod 2 ^ 16"
  proof
    fix u assume u: "u \<in> set (v # vs)"
    show "\<exists>k<length (v # vs). (v # vs) ! k = u \<and> ssa_to_reg rctx' u = ?off k (v # vs) mod 2 ^ 16"
    proof (cases "u \<in> set vs")
      case True
      with IH obtain j where j: "j < length vs" "vs ! j = u"
        "ssa_to_reg rctx' u = (base + ncomps rctx v + sum_list (map (ncomps rctx) (take j vs))) mod 2 ^ 16"
        by blast
      then have "Suc j < length (v # vs) \<and> (v # vs) ! Suc j = u
          \<and> ssa_to_reg rctx' u = ?off (Suc j) (v # vs) mod 2 ^ 16"
        by (simp add: add.assoc)
      then show ?thesis by blast
    next
      case False
      then have uv: "u = v" using u by simp
      from IH False have "ssa_to_reg rctx' u = ssa_to_reg rctx1 u" by blast
      then have "ssa_to_reg rctx' u = base mod 2 ^ 16" using t(7) uv by simp
      then have "0 < length (v # vs) \<and> (v # vs) ! 0 = u
          \<and> ssa_to_reg rctx' u = ?off 0 (v # vs) mod 2 ^ 16" using uv by simp
      then show ?thesis by blast
    qed
  qed
  have d: "\<forall>u. u \<notin> set (v # vs) \<longrightarrow> ssa_to_reg rctx' u = ssa_to_reg rctx u"
    using IH t(7) by simp
  show ?case using a b c d IH by blast
qed

lemma size_align_dvd:
  "size_rank a \<le> size_rank b \<Longrightarrow> agx_size_align_16 a dvd agx_size_align_16 b"
  by (cases a; cases b) simp_all

lemma pack_fold_induction_holds:
  assumes "sorted_wrt (\<lambda>a b. sort_by_size rctx a b \<le> 0) vars"
    and "\<forall>v\<in>set vars. agx_size_align_16 (sizes rctx v) dvd base"
  shows "fold_err pack_var vars (rctx, copies, base) \<noteq> Inl (Assertion ''induction'')"
  using assms
proof (induction vars arbitrary: rctx copies base)
  case Nil
  then show ?case by simp
next
  case (Cons v vs)
  show ?case
  proof (cases "pack_var v (rctx, copies, base)")
    case (Inl e)
    have "base mod agx_size_align_16 (sizes rctx v) = 0" using Cons.prems(2) by auto
    then have "e \<noteq> Assertion ''induction''"
      using Inl by (auto simp: pack_var_def Let_def split: if_splits)
    then show ?thesis using Inl by simp
  next
    case (Inr p)
    obtain rctx1 copies1 base1 where p: "p = (rctx1, copies1, base1)" by (cases p)
    note t = pack_var_tables[OF Inr[unfolded p]]
    have s1: "sorted_wrt (\<lambda>a b. sort_by_size rctx1 a b \<le> 0) vs"
      using Cons.prems(1) by (simp add: sort_by_size_def t(2))
    have d1: "\<forall>u\<in>set vs. agx_size_align_16 (sizes rctx1 u) dvd base1"
    proof
      fix u assume u: "u \<in> set vs"
      then have "size_rank (sizes rctx u) \<le> size_rank (sizes rctx v)"
        using Cons.prems(1) by (auto simp: sort_by_size_def)
      then have dv: "agx_size_align_16 (sizes rctx u) dvd agx_size_align_16 (sizes rctx v)"
        by (rule size_align_dvd)
      have "agx_size_align_16 (sizes rctx v) dvd ncomps rctx v"
        using t(6) by (simp add: mod_eq_0_iff_dvd)
      with dv have "agx_size_align_16 (sizes rctx u) dvd ncomps rctx v"
        by (rule dvd_trans)
      moreover have "agx_size_align_16 (sizes rctx u) dvd base" using Cons.prems(2) u by simp
      ultimately show "agx_size_align_16 (sizes rctx1 u) dvd base1"
        unfolding t(2,4) by (rule dvd_add[rotated])
    qed
    from Cons.IH[OF s1 d1] show ?thesis using Inr p by simp
  qed
qed


lemma collect_fold:
  assumes "fold_err (collect_killed_src rctx cl) srcs acc = Inr vars"
  shows "vars = acc @ map idx_value (filter (\<lambda>s. idx_kill s \<and> ra_class_for_index s = RA_GPR
                    \<and> ssa_to_reg rctx (idx_value s) \<in> cl) srcs)
         \<and> (length acc \<le> 16 \<longrightarrow> length vars \<le> 16)"
  using assms
proof (induction srcs arbitrary: acc)
  case Nil
  then show ?case by simp
next
  case (Cons s srcs)
  from Cons.prems obtain acc1 where a: "collect_killed_src rctx cl s acc = Inr acc1"
    and f: "fold_err (collect_killed_src rctx cl) srcs acc1 = Inr vars"
    by (auto split: sum.splits)
  from a have acc1: "acc1 = (if idx_kill s \<and> ra_class_for_index s = RA_GPR
         \<and> ssa_to_reg rctx (idx_value s) \<in> cl then acc @ [idx_value s] else acc)"
    and len: "length acc \<le> 16 \<longrightarrow> length acc1 \<le> 16"
    by (auto simp: collect_killed_src_def split: if_splits)
  from Cons.IH[OF f] acc1 len show ?case by auto
qed

lemma qsort_spec_set:
  assumes "qsort_spec rctx q vs"
  shows "set (q vs) = set vs" and "length (q vs) = length vs"
proof -
  have c: "\<And>x. count_list (q vs) x = count_list vs x" using assms by (simp add: qsort_spec_def)
  show s: "set (q vs) = set vs"
  proof (rule set_eqI)
    fix x show "x \<in> set (q vs) \<longleftrightarrow> x \<in> set vs"
      using c[of x] count_list_0_iff[of "q vs" x] count_list_0_iff[of vs x] by simp
  qed
  have "sum (count_list (q vs)) (set vs) = length (q vs)"
    by (rule sum_count_set) (simp_all add: s)
  moreover have "sum (count_list vs) (set vs) = length vs"
    by (rule sum_count_set) simp_all
  ultimately show "length (q vs) = length vs" using c by simp
qed

lemma pack_offset_Suc:
  "k < length vars \<Longrightarrow> pack_offset rctx reg vars (Suc k) = pack_offset rctx reg vars k + ncomps rctx (vars ! k)"
  by (simp add: pack_offset_def take_Suc_conv_app_nth)

lemma pack_offset_mono:
  "pack_offset rctx reg vars k \<le> pack_offset rctx reg vars (length vars)"
proof -
  have "sum_list (map (ncomps rctx) vars) =
        sum_list (map (ncomps rctx) (take k vars)) + sum_list (map (ncomps rctx) (drop k vars))"
    by (metis append_take_drop_id map_append sum_list.append)
  then show ?thesis by (simp add: pack_offset_def)
qed

definition collected_srcs :: "evict_state \<Rightarrow> nat \<Rightarrow> nat \<Rightarrow> agx_instr \<Rightarrow> nat list" where
  "collected_srcs st reg count I =
     map idx_value (filter (\<lambda>s. idx_kill s \<and> ra_class_for_index s = RA_GPR
        \<and> ssa_to_reg (es_rctx st) (idx_value s) \<in> bitset_set_range (es_clobbered st) reg count)
        (ssa_srcs I))"

definition packed_in_window ::
  "evict_state \<Rightarrow> evict_state \<Rightarrow> nat \<Rightarrow> nat \<Rightarrow> nat list \<Rightarrow> bool" where
  "packed_in_window st st' reg count vars \<longleftrightarrow>
     length vars \<le> 16
     \<and> sorted_wrt (\<lambda>a b. agx_size_align_16 (sizes (es_rctx st) b)
                        \<le> agx_size_align_16 (sizes (es_rctx st) a)) vars
     \<and> (\<forall>k<length vars.
           pack_offset (es_rctx st) reg vars k mod agx_size_align_16 (sizes (es_rctx st) (vars ! k)) = 0
           \<and> pack_offset (es_rctx st) reg vars k + ncomps (es_rctx st) (vars ! k) \<le> reg + count)
     \<and> (\<forall>v\<in>set vars. \<exists>k<length vars. vars ! k = v
           \<and> ssa_to_reg (es_rctx st') v = pack_offset (es_rctx st) reg vars k)
     \<and> pack_offset (es_rctx st) reg vars (length vars) \<le> reg + count
     \<and> es_clobbered st' = bitset_set_range (es_clobbered st) reg count"

lemma insert_copies_success:
  assumes q: "qsort_spec (es_rctx st) util_qsort_r (collected_srcs st reg count I)" and fit: "reg + count < 2 ^ 16"
    and r: "insert_copies_for_clobbered_killed util_qsort_r st reg count I = Inr st'"
  shows "set (util_qsort_r (collected_srcs st reg count I)) = set (collected_srcs st reg count I)"
    and "packed_in_window st st' reg count (util_qsort_r (collected_srcs st reg count I))"
proof -
  let ?rctx = "es_rctx st"
  let ?cl = "bitset_set_range (es_clobbered st) reg count"
  let ?coll = "collected_srcs st reg count I"
  let ?vars = "util_qsort_r ?coll"
  show "set ?vars = set ?coll" using qsort_spec_set(1)[OF q] .
  from r obtain collected where c: "fold_err (collect_killed_src ?rctx ?cl) (ssa_srcs I) [] = Inr collected"
    by (auto simp: insert_copies_for_clobbered_killed_def Let_def split: if_splits sum.splits)
  from collect_fold[OF c] have coll: "collected = ?coll"
    by (simp add: collected_srcs_def)
  from collect_fold[OF c, THEN conjunct2] have len: "length collected \<le> 16" by simp
  have lenv: "length ?vars \<le> 16" using len coll qsort_spec_set(2)[OF q] by simp
  have srt: "sorted_wrt (\<lambda>a b. sort_by_size ?rctx a b \<le> 0) ?vars"
    using q by (simp add: qsort_spec_def)
  have mono: "\<And>a b. sort_by_size ?rctx a b \<le> 0 \<Longrightarrow>
      agx_size_align_16 (sizes ?rctx b) \<le> agx_size_align_16 (sizes ?rctx a)"
  proof -
    fix a b assume "sort_by_size ?rctx a b \<le> 0"
    then have "size_rank (sizes ?rctx b) \<le> size_rank (sizes ?rctx a)"
      by (simp add: sort_by_size_def)
    then show "agx_size_align_16 (sizes ?rctx b) \<le> agx_size_align_16 (sizes ?rctx a)"
      by (cases "sizes ?rctx a"; cases "sizes ?rctx b") simp_all
  qed
  have srt': "sorted_wrt (\<lambda>a b. agx_size_align_16 (sizes ?rctx b)
                        \<le> agx_size_align_16 (sizes ?rctx a)) ?vars"
    using srt mono by (rule sorted_wrt_mono_rel[rotated]) 
  show "packed_in_window st st' reg count ?vars"
  proof (cases "length collected = 0")
    case True
    then have "?vars = []" using coll qsort_spec_set(2)[OF q] by simp
    moreover have "es_clobbered st' = ?cl"
      using r c True by (auto simp: insert_copies_for_clobbered_killed_def Let_def split: if_splits)
    ultimately show ?thesis by (simp add: packed_in_window_def pack_offset_def)
  next
    case False
    from r c False coll obtain rctx' copies base where
      f: "fold_err pack_var ?vars (?rctx, es_copies st, reg) = Inr (rctx', copies, base)"
      and b: "base \<le> reg + count"
      and st': "st' = \<lparr> es_rctx = rctx', es_copies = copies, es_clobbered = ?cl \<rparr>"
      by (auto simp: insert_copies_for_clobbered_killed_def Let_def
          split: if_splits sum.splits list.splits)
    note pf = pack_fold[OF f]
    have fin: "pack_offset ?rctx reg ?vars (length ?vars) \<le> reg + count"
      using pf b by (simp add: pack_offset_def)
    have al: "\<forall>k<length ?vars.
           pack_offset ?rctx reg ?vars k mod agx_size_align_16 (sizes ?rctx (?vars ! k)) = 0
           \<and> pack_offset ?rctx reg ?vars k + ncomps ?rctx (?vars ! k) \<le> reg + count"
    proof (intro allI impI conjI)
      fix k assume k: "k < length ?vars"
      show "pack_offset ?rctx reg ?vars k mod agx_size_align_16 (sizes ?rctx (?vars ! k)) = 0"
        using pf k by (simp add: pack_offset_def)
      have "pack_offset ?rctx reg ?vars (Suc k) \<le> pack_offset ?rctx reg ?vars (length ?vars)"
        by (rule pack_offset_mono)
      then show "pack_offset ?rctx reg ?vars k + ncomps ?rctx (?vars ! k) \<le> reg + count"
        using pack_offset_Suc[OF k, of ?rctx reg] fin by simp
    qed
    have loc: "\<forall>v\<in>set ?vars. \<exists>k<length ?vars. ?vars ! k = v
           \<and> ssa_to_reg (es_rctx st') v = pack_offset ?rctx reg ?vars k"
    proof
      fix v assume "v \<in> set ?vars"
      with pf obtain k where k: "k < length ?vars" "?vars ! k = v"
        "ssa_to_reg rctx' v = (reg + sum_list (map (ncomps ?rctx) (take k ?vars))) mod 2 ^ 16"
        by blast
      have "pack_offset ?rctx reg ?vars k \<le> pack_offset ?rctx reg ?vars (length ?vars)"
        by (rule pack_offset_mono)
      then have "pack_offset ?rctx reg ?vars k < 2 ^ 16" using fin fit by simp
      then have "ssa_to_reg (es_rctx st') v = pack_offset ?rctx reg ?vars k"
        using k(3) st' by (simp add: pack_offset_def)
      with k show "\<exists>k<length ?vars. ?vars ! k = v
           \<and> ssa_to_reg (es_rctx st') v = pack_offset ?rctx reg ?vars k" by blast
    qed
    show ?thesis
      unfolding packed_in_window_def using lenv srt' al loc fin st' by simp
  qed
qed

lemma insert_copies_induction_holds:
  assumes q: "qsort_spec (es_rctx st) util_qsort_r (collected_srcs st reg count I)"
  shows "insert_copies_for_clobbered_killed util_qsort_r st reg count I \<noteq>
           Inl (Assertion ''induction'')"
proof
  assume e: "insert_copies_for_clobbered_killed util_qsort_r st reg count I =
           Inl (Assertion ''induction'')"
  let ?rctx = "es_rctx st"
  let ?cl = "bitset_set_range (es_clobbered st) reg count"
  have ne: "fold_err (collect_killed_src ?rctx ?cl) (ssa_srcs I) [] \<noteq> Inl (Assertion ''induction'')"
  proof
    assume a: "fold_err (collect_killed_src ?rctx ?cl) (ssa_srcs I) [] = Inl (Assertion ''induction'')"
    have "\<And>x a b. collect_killed_src ?rctx ?cl x a = Inl b \<Longrightarrow> b \<noteq> Assertion ''induction''"
      by (auto simp: collect_killed_src_def split: if_splits)
    from fold_err_error[where P = "\<lambda>b. b \<noteq> Assertion ''induction''", OF this a]
    show False by simp
  qed
  from e ne obtain collected var0 rest where
    c: "fold_err (collect_killed_src ?rctx ?cl) (ssa_srcs I) [] = Inr collected"
    and v: "util_qsort_r collected = var0 # rest"
    and a0: "reg mod agx_size_align_16 (sizes ?rctx var0) = 0"
    and f: "fold_err pack_var (var0 # rest) (?rctx, es_copies st, reg) = Inl (Assertion ''induction'')"
    by (auto simp: insert_copies_for_clobbered_killed_def Let_def
        split: if_splits sum.splits list.splits prod.splits)
  from collect_fold[OF c] have coll: "collected = collected_srcs st reg count I"
    by (simp add: collected_srcs_def)
  have srt: "sorted_wrt (\<lambda>a b. sort_by_size ?rctx a b \<le> 0) (var0 # rest)"
    using q v coll by (metis qsort_spec_def)
  have "\<forall>u\<in>set (var0 # rest). agx_size_align_16 (sizes ?rctx u) dvd reg"
  proof
    fix u assume u: "u \<in> set (var0 # rest)"
    have "size_rank (sizes ?rctx u) \<le> size_rank (sizes ?rctx var0)"
      using srt u by (auto simp: sort_by_size_def)
    then have "agx_size_align_16 (sizes ?rctx u) dvd agx_size_align_16 (sizes ?rctx var0)"
      by (rule size_align_dvd)
    moreover have "agx_size_align_16 (sizes ?rctx var0) dvd reg"
      using a0 by (simp add: mod_eq_0_iff_dvd)
    ultimately show "agx_size_align_16 (sizes ?rctx u) dvd reg" by (rule dvd_trans)
  qed
  from pack_fold_induction_holds[OF srt this] f show False by blast
qed


text \<open>
  Whatever order the library sort produces among equal sizes, when the procedure
  completes the relocated values are the killed general-purpose sources whose register is
  in the clobbered set or the window, at most 16 of them, in descending order of alignment,
  placed one after the other from the window base at aligned offsets, all inside the
  window; and the alignment assertion of the packing loop cannot fail after such a sort.
  That the procedure completes is not part of this statement.
\<close>

lemma insert_copies_for_clobbered_killed_packs:
  assumes "qsort_spec (es_rctx st) util_qsort_r (collected_srcs st reg count I)"
    and "reg + count < 2 ^ 16"
  shows "insert_copies_for_clobbered_killed util_qsort_r st reg count I
           \<noteq> Inl (Assertion ''induction'')
       \<and> (insert_copies_for_clobbered_killed util_qsort_r st reg count I = Inr st' \<longrightarrow>
            set (util_qsort_r (collected_srcs st reg count I)) = set (collected_srcs st reg count I)
            \<and> packed_in_window st st' reg count (util_qsort_r (collected_srcs st reg count I)))"
  using insert_copies_induction_holds[OF assms(1)] insert_copies_success[OF assms] by blast

lemma ex_collected: "collected_srcs ex_evict_state2 4 4 ex_instr2 = [0, 1]"
  by (simp add: collected_srcs_def ex_evict_state2_def ex_rctx4_def ex_rctx_def ex_instr2_def
      ssa_srcs_def is_ssa_def ssa_idx_def ra_class_for_index_def bitset_set_range_def)

lemma ex_sorted: "ex_sort ex_rctx4 [0, 1] = [1, 0]"
  by (simp add: ex_sort_def ex_rctx4_def ex_rctx_def)

lemma insert_copies_for_clobbered_killed_packs_example:
  "(\<exists>st'. insert_copies_for_clobbered_killed (ex_sort ex_rctx4) ex_evict_state2 4 4 ex_instr2
            = Inr st'
         \<and> packed_in_window ex_evict_state2 st' 4 4 [1, 0]
         \<and> ssa_to_reg (es_rctx st') 1 = 4 \<and> ssa_to_reg (es_rctx st') 0 = 6)"
proof -
  have q: "qsort_spec (es_rctx ex_evict_state2) (ex_sort ex_rctx4)
             (collected_srcs ex_evict_state2 4 4 ex_instr2)"
    unfolding ex_collected qsort_spec_def ex_sorted
    by (simp add: sort_by_size_def ex_evict_state2_def ex_rctx4_def ex_rctx_def)
  have f: "(4::nat) + 4 < 2 ^ 16" by simp
  obtain st' where r: "insert_copies_for_clobbered_killed (ex_sort ex_rctx4) ex_evict_state2 4 4
      ex_instr2 = Inr st'" and l: "ssa_to_reg (es_rctx st') 1 = 4" "ssa_to_reg (es_rctx st') 0 = 6"
    by (simp add: insert_copies_for_clobbered_killed_def collect_killed_src_def pack_var_def
        ex_sort_def ex_evict_state2_def ex_rctx4_def ex_rctx_def ex_instr2_def
        ssa_srcs_def is_ssa_def ssa_idx_def ra_class_for_index_def bitset_set_range_def
        set_ssa_to_reg_def Let_def)
  from insert_copies_for_clobbered_killed_packs[OF q f, of st'] r l
  show ?thesis unfolding ex_collected ex_sorted by blast
qed

section \<open>Finding registers for a destination\<close>

text \<open>
  \<^verbatim>\<open>find_regs_simple\<close>: the first free range of \<open>count\<close> sub-units at a multiple of
  \<open>align\<close>. The inner \<open>Some\<close> is the \<^verbatim>\<open>true\<close> of the source with the register it
  stores, \<open>Some None\<close> its \<^verbatim>\<open>false\<close>; with \<open>align = 0\<close> and register 0 occupied the
  loop makes no progress, which is the outer \<open>None\<close>.
\<close>

function find_regs_simple ::
  "ra_ctx \<Rightarrow> ra_class \<Rightarrow> nat \<Rightarrow> nat \<Rightarrow> nat \<Rightarrow> nat option option" where
  "find_regs_simple rctx cls count align reg =
     (if \<not> reg + count \<le> bound rctx cls then Some None
      else if \<not> bitset_test_range (used_regs rctx cls) reg count then Some (Some reg)
      else if align = 0 then None
      else find_regs_simple rctx cls count align (reg + align))"
  by pat_completeness auto
termination
  by (relation "measure (\<lambda>(rctx, cls, count, align, reg). Suc (bound rctx cls) - reg)") auto

declare find_regs_simple.simps [simp del]

text \<open>
  \<^verbatim>\<open>find_regs\<close>. The bitset \<^verbatim>\<open>killed\<close> receives the range of every SSA source
  that has been visited, whether or not its kill flag is set. The result is the register,
  the context and the copies of the parallel copy emitted before the instruction (none on
  the simple path); \<open>None\<close> is not returning.
\<close>

definition killed_src :: "ra_ctx \<Rightarrow> agx_index \<Rightarrow> nat set \<Rightarrow> ra_error + nat set" where
  "killed_src rctx s killed =
     (let v = idx_value s in
      if v \<in> visited rctx then
        (if ncomps rctx v = 0 then Inl (Undefined ''BITSET_SET_RANGE with end before start'')
         else Inr (bitset_set_range killed (ssa_to_reg rctx v) (ncomps rctx v)))
      else Inr killed)"

definition find_regs ::
  "nat \<Rightarrow> (nat list \<Rightarrow> nat list) \<Rightarrow> ra_ctx \<Rightarrow> agx_instr \<Rightarrow> nat \<Rightarrow> nat \<Rightarrow> nat
   \<Rightarrow> (ra_error + nat \<times> ra_ctx \<times> agx_copy list) option" where
  "find_regs fuel util_qsort_r rctx I dest_idx count align =
     (if count \<noteq> align then Some (Inl (Assertion ''count == align''))
      else
        (let cls = ra_class_for_index (dest I ! dest_idx) in
         case find_regs_simple rctx cls count align 0 of
           None \<Rightarrow> None
         | Some (Some reg) \<Rightarrow> Some (Inr (reg, rctx, []))
         | Some None \<Rightarrow>
             if cls \<noteq> RA_GPR then Some (Inl (Assertion ''no memory live range splits''))
             else
               (case fold_err (killed_src rctx) (ssa_srcs I) {} of
                  Inl e \<Rightarrow> Some (Inl e)
                | Inr killed \<Rightarrow>
                    (case assign_regs_by_copying fuel killed I cls count align
                            \<lparr> es_rctx = rctx, es_copies = [], es_clobbered = {} \<rparr> of
                       None \<Rightarrow> None
                     | Some (Inl e) \<Rightarrow> Some (Inl e)
                     | Some (Inr (reg, st1)) \<Rightarrow>
                         (case insert_copies_for_clobbered_killed util_qsort_r st1 reg count I of
                            Inl e \<Rightarrow> Some (Inl e)
                          | Inr st2 \<Rightarrow>
                              Some (Inr (reg,
                                (es_rctx st2)\<lparr> used_regs := (used_regs (es_rctx st2))
                                   (cls := bitset_clear_range (used_regs (es_rctx st2) cls)
                                             reg count) \<rparr>,
                                es_copies st2)))))))"

text \<open>
  A file of 16 sub-units without control flow. Values 0 and 1 (one sub-unit each, at
  registers 0 and 2) are sources killed by the instruction and have been freed; value 2
  occupies 4 to 7, the scalars 3 and 4 occupy 8 and 9, and value 5 occupies 10 and 11.
  The destination, value 6, needs 8 sub-units, and 8 are free: 0 to 3 and 12 to 15.
\<close>

definition ex_rctx6 :: ra_ctx where
  "ex_rctx6 = \<lparr> ssa_to_reg = (\<lambda>_. 0)(1 := 2, 2 := 4, 3 := 8, 4 := 9, 5 := 10),
       ncomps = (\<lambda>_. 1)(2 := 4, 5 := 2, 6 := 8),
       sizes = (\<lambda>_. AGX_SIZE_16)(5 := AGX_SIZE_32, 6 := AGX_SIZE_32),
       classes = (\<lambda>_. RA_GPR), visited = {0, 1, 2, 3, 4, 5},
       used_regs = (\<lambda>_. {})(RA_GPR := {4, 5, 6, 7, 8, 9, 10, 11}),
       max_reg = (\<lambda>_. 11),
       reg_to_ssa = (\<lambda>_. 0)(2 := 1, 4 := 2, 8 := 3, 9 := 4, 10 := 5),
       bound = (\<lambda>_. 2048)(RA_GPR := 16), any_cf = False \<rparr>"

definition ex_instr6 :: agx_instr where
  "ex_instr6 = \<lparr> op = AGX_OPCODE_OTHER 0, dest = [ssa_idx 6 AGX_SIZE_32 4 False],
     src = [ssa_idx 0 AGX_SIZE_16 1 True, ssa_idx 1 AGX_SIZE_16 1 True] \<rparr>"

text \<open>The equations that evaluate \<^verbatim>\<open>find_regs\<close> on an example.\<close>

lemmas find_regs_eval = find_regs_def find_regs_simple.simps killed_src_def
  find_best_region_to_evict_def UINT_MAX_def util_is_power_of_two_or_zero_def
  evict_scan.simps evict_loop.simps bitset_test_range_def bitset_set_range_def
  bitset_clear_range_def region_moves_def region_moves_step_def
  util_next_power_of_two_def npot_from.simps evict_copy_def stride_indices_def
  set_ssa_to_reg_def agx_register_def ssa_srcs_def is_ssa_def ssa_idx_def ra_class_for_index_def
  insert_copies_for_clobbered_killed_def collect_killed_src_def pack_var_def Let_def

text \<open>
  A file of 16 sub-units without control flow. The killed sources, already freed, are
  value 0 (one sub-unit at register 0), value 1 (four, at 4 to 7) and value 2 (four, at
  8 to 11). The scalars 3 and 4 occupy 12 and 13, value 5 occupies 1 and value 6
  occupies 2 and 3. The destination, value 7, needs 8 sub-units, and 11 are free.
\<close>

definition ex_rctx7 :: ra_ctx where
  "ex_rctx7 = \<lparr> ssa_to_reg = (\<lambda>_. 0)(1 := 4, 2 := 8, 3 := 12, 4 := 13, 5 := 1, 6 := 2),
       ncomps = (\<lambda>_. 1)(1 := 4, 2 := 4, 6 := 2, 7 := 8),
       sizes = (\<lambda>_. AGX_SIZE_16)(6 := AGX_SIZE_32, 7 := AGX_SIZE_32),
       classes = (\<lambda>_. RA_GPR), visited = {0, 1, 2, 3, 4, 5, 6},
       used_regs = (\<lambda>_. {})(RA_GPR := {1, 2, 3, 12, 13}),
       max_reg = (\<lambda>_. 13),
       reg_to_ssa = (\<lambda>_. 0)(1 := 5, 2 := 6, 4 := 1, 8 := 2, 12 := 3, 13 := 4),
       bound = (\<lambda>_. 2048)(RA_GPR := 16), any_cf = False \<rparr>"

definition ex_instr7 :: agx_instr where
  "ex_instr7 = \<lparr> op = AGX_OPCODE_OTHER 0, dest = [ssa_idx 7 AGX_SIZE_32 4 False],
     src = [ssa_idx 0 AGX_SIZE_16 1 True, ssa_idx 1 AGX_SIZE_16 4 True,
            ssa_idx 2 AGX_SIZE_16 4 True] \<rparr>"


lemma find_regs_simple_ex6: "find_regs_simple ex_rctx6 RA_GPR 8 8 0 = Some None"
  by (simp add: find_regs_simple.simps bitset_test_range_def ex_rctx6_def upt_rec)

lemma killed_ex6: "fold_err (killed_src ex_rctx6) (ssa_srcs ex_instr6) {} = Inr {0, 2}"
  by (simp add: killed_src_def ssa_srcs_def is_ssa_def ssa_idx_def ex_instr6_def ex_rctx6_def
      bitset_set_range_def Let_def insert_commute)

lemma assign_regs_by_copying_ex6:
  "assign_regs_by_copying (Suc (Suc 0)) {0, 2} ex_instr6 RA_GPR 8 8
      \<lparr> es_rctx = ex_rctx6, es_copies = [], es_clobbered = {} \<rparr>
     = Some (Inl (Assertion ''not enough registers (should have spilled already)''))"
  by (simp add: find_regs_eval ex_rctx6_def ex_instr6_def upt_rec)

lemma dest_class_ex6: "ra_class_for_index (dest ex_instr6 ! 0) = RA_GPR"
  by (simp add: ex_instr6_def ssa_idx_def ra_class_for_index_def)

text \<open>
  C5: the search does not find a candidate although enough sub-units are free. On the
  first example 8 sub-units are free for a destination of 8, and no aligned range of 8 is:
  \<^verbatim>\<open>find_regs\<close> evicts. The window at register 8 has the least score. Its two scalars
  are moved to registers 1 and 3, which score 0, registers 0 and 2 scoring 2 for the killed
  sources. For the value of two sub-units that follows, the windows at 0 and at 2 each
  hold a register chosen for eviction and every other window is full: with registers 0
  and 2 free, the search ends in its assertion, and \<^verbatim>\<open>find_regs\<close> with it.
\<close>

theorem find_best_region_to_evict_no_candidate:
  "length (filter (\<lambda>r. r \<notin> used_regs ex_rctx6 RA_GPR) [0..<bound ex_rctx6 RA_GPR]) = 8
   \<and> find_regs 8 (ex_sort ex_rctx6) ex_rctx6 ex_instr6 0 8 8
       = Some (Inl (Assertion ''not enough registers (should have spilled already)''))
   \<and> find_best_region_to_evict
        (ex_rctx6\<lparr> used_regs := (used_regs ex_rctx6)
           (RA_GPR := {1, 3, 4, 5, 6, 7, 8, 9, 10, 11, 12, 13, 14, 15}) \<rparr>)
        RA_GPR 2 {1, 3} {0, 2}
       = Inl (Assertion ''not enough registers (should have spilled already)'')"
proof -
  have a: "length (filter (\<lambda>r. r \<notin> used_regs ex_rctx6 RA_GPR) [0..<bound ex_rctx6 RA_GPR]) = 8"
    by (simp add: ex_rctx6_def upt_rec)
  have "assign_regs_by_copying (Suc (Suc 0) + 6) {0, 2} ex_instr6 RA_GPR 8 8
      \<lparr> es_rctx = ex_rctx6, es_copies = [], es_clobbered = {} \<rparr>
     = Some (Inl (Assertion ''not enough registers (should have spilled already)''))"
    using assign_regs_by_copying_ex6 by (rule assign_regs_by_copying_more_fuel)
  then have c: "assign_regs_by_copying 8 {0, 2} ex_instr6 RA_GPR 8 8
      \<lparr> es_rctx = ex_rctx6, es_copies = [], es_clobbered = {} \<rparr>
     = Some (Inl (Assertion ''not enough registers (should have spilled already)''))"
    by simp
  have b: "find_regs 8 (ex_sort ex_rctx6) ex_rctx6 ex_instr6 0 8 8
       = Some (Inl (Assertion ''not enough registers (should have spilled already)''))"
    by (simp add: find_regs_def dest_class_ex6 find_regs_simple_ex6 killed_ex6 c)
  have d: "find_best_region_to_evict
        (ex_rctx6\<lparr> used_regs := (used_regs ex_rctx6)
           (RA_GPR := {1, 3, 4, 5, 6, 7, 8, 9, 10, 11, 12, 13, 14, 15}) \<rparr>)
        RA_GPR 2 {1, 3} {0, 2}
       = Inl (Assertion ''not enough registers (should have spilled already)'')"
    by (simp add: find_best_region_to_evict_def UINT_MAX_def util_is_power_of_two_or_zero_def
        evict_scan.simps bitset_test_range_def region_moves_def region_moves_step_def
        ex_rctx6_def upt_rec)
  show ?thesis using a b d by simp
qed

lemma find_regs_simple_ex7: "find_regs_simple ex_rctx7 RA_GPR 8 8 0 = Some None"
  by (simp add: find_regs_simple.simps bitset_test_range_def ex_rctx7_def upt_rec)

lemma killed_ex7:
  "fold_err (killed_src ex_rctx7) (ssa_srcs ex_instr7) {} = Inr {0, 4, 5, 6, 7, 8, 9, 10, 11}"
  by (simp add: killed_src_def ssa_srcs_def is_ssa_def ssa_idx_def ex_instr7_def ex_rctx7_def
      bitset_set_range_def Let_def upt_rec insert_commute)

lemma dest_class_ex7: "ra_class_for_index (dest ex_instr7 ! 0) = RA_GPR"
  by (simp add: ex_instr7_def ssa_idx_def ra_class_for_index_def)

text \<open>
  C7: the killed sources do not always fit the window. On the second example the window
  at register 8 is chosen for the destination of 8 sub-units, and its two scalars are
  moved to registers 0 and 4, the first registers of two killed sources. All three
  killed sources then have their first register in the clobbered set or the window, and
  are collected whole: 1 + 4 + 4 sub-units for a window of 8. The packing ends at
  register 17 and the assertion on the final offset fails.
\<close>

theorem insert_copies_for_clobbered_killed_overflows:
  "length (filter (\<lambda>r. r \<notin> used_regs ex_rctx7 RA_GPR) [0..<bound ex_rctx7 RA_GPR]) = 11
   \<and> find_regs 8 (ex_sort ex_rctx7) ex_rctx7 ex_instr7 0 8 8
       = Some (Inl (Assertion ''no overflow''))"
proof -
  have a: "length (filter (\<lambda>r. r \<notin> used_regs ex_rctx7 RA_GPR) [0..<bound ex_rctx7 RA_GPR]) = 11"
    by (simp add: ex_rctx7_def upt_rec)
  obtain st1 where
    e: "assign_regs_by_copying (Suc (Suc 0)) {0, 4, 5, 6, 7, 8, 9, 10, 11} ex_instr7 RA_GPR 8 8
          \<lparr> es_rctx = ex_rctx7, es_copies = [], es_clobbered = {} \<rparr> = Some (Inr (8, st1))"
    and i: "insert_copies_for_clobbered_killed (ex_sort ex_rctx7) st1 8 8 ex_instr7
          = Inl (Assertion ''no overflow'')"
    by (simp add: find_regs_eval ex_sort_def ex_rctx7_def ex_instr7_def upt_rec)
  have "assign_regs_by_copying (Suc (Suc 0) + 6) {0, 4, 5, 6, 7, 8, 9, 10, 11} ex_instr7 RA_GPR 8 8
          \<lparr> es_rctx = ex_rctx7, es_copies = [], es_clobbered = {} \<rparr> = Some (Inr (8, st1))"
    using e by (rule assign_regs_by_copying_more_fuel)
  then have c: "assign_regs_by_copying 8 {0, 4, 5, 6, 7, 8, 9, 10, 11} ex_instr7 RA_GPR 8 8
          \<lparr> es_rctx = ex_rctx7, es_copies = [], es_clobbered = {} \<rparr> = Some (Inr (8, st1))"
    by simp
  have b: "find_regs 8 (ex_sort ex_rctx7) ex_rctx7 ex_instr7 0 8 8
       = Some (Inl (Assertion ''no overflow''))"
    by (simp add: find_regs_def dest_class_ex7 find_regs_simple_ex7 killed_ex7 c i)
  show ?thesis using a b by simp
qed

section \<open>Assigning a register range\<close>

text \<open>
  \<^verbatim>\<open>assign_regs\<close> records the base register of an SSA value, marks the value visited and
  claims the sub-units \<open>[reg, reg + ncomps)\<close> in the occupancy bitset of the value's class.
  Each of its five assertions is an error branch. The bound assertion tests the base
  register only; the range test \<^verbatim>\<open>BITSET_TEST_RANGE(used, reg, end)\<close> with
  \<open>end = reg + ncomps - 1\<close> is the inclusive range \<open>[reg, reg + ncomps)\<close>.
\<close>

definition assign_regs :: "ra_ctx \<Rightarrow> agx_index \<Rightarrow> nat \<Rightarrow> ra_error + ra_ctx" where
  "assign_regs rctx v reg =
     (let cls = ra_class_for_index v in
      if \<not> reg < bound rctx cls then Inl (Assertion ''must not overflow register file'')
      else if idx_type v \<noteq> AGX_INDEX_NORMAL
        then Inl (Assertion ''only SSA gets registers allocated'')
      else
        (let rctx1 = set_ssa_to_reg rctx (idx_value v) reg in
         if idx_value v \<in> visited rctx1 then Inl (Assertion ''SSA violated'')
         else
           (let rctx2 = rctx1\<lparr> visited := insert (idx_value v) (visited rctx1) \<rparr>;
                n = ncomps rctx2 (idx_value v)
            in if \<not> 1 \<le> n then Inl (Assertion ''rctx->ncomps[v.value] >= 1'')
               else if bitset_test_range (used_regs rctx2 cls) reg n
                 then Inl (Assertion ''no interference'')
               else
                 (let rctx3 = rctx2\<lparr> used_regs := (used_regs rctx2)
                                (cls := bitset_set_range (used_regs rctx2 cls) reg n) \<rparr>
                  in Inr (if cls = RA_GPR
                          then rctx3\<lparr> reg_to_ssa := (reg_to_ssa rctx3)(reg := idx_value v) \<rparr>
                          else rctx3)))))"

text \<open>
  The invariant of the per-block allocation, over a set \<open>L\<close> of values that hold a
  register (the live ones): they have been visited, the ranges of two different values of
  one class are disjoint, every range ends at or below the bound of its class, and every
  sub-unit of a range is set in the occupancy bitset of its class.
\<close>

definition value_range :: "ra_ctx \<Rightarrow> nat \<Rightarrow> nat set" where
  "value_range rctx v = {ssa_to_reg rctx v ..< ssa_to_reg rctx v + ncomps rctx v}"

definition no_interference :: "ra_ctx \<Rightarrow> nat set \<Rightarrow> bool" where
  "no_interference rctx L \<longleftrightarrow>
     (\<forall>u\<in>L. \<forall>v\<in>L. u \<noteq> v \<and> classes rctx u = classes rctx v
        \<longrightarrow> value_range rctx u \<inter> value_range rctx v = {})"

definition ranges_in_bound :: "ra_ctx \<Rightarrow> nat set \<Rightarrow> bool" where
  "ranges_in_bound rctx L \<longleftrightarrow>
     (\<forall>v\<in>L. ssa_to_reg rctx v + ncomps rctx v \<le> bound rctx (classes rctx v))"

definition occupancy_covers :: "ra_ctx \<Rightarrow> nat set \<Rightarrow> bool" where
  "occupancy_covers rctx L \<longleftrightarrow>
     (\<forall>v\<in>L. value_range rctx v \<subseteq> used_regs rctx (classes rctx v))"

definition allocation_ok :: "ra_ctx \<Rightarrow> nat set \<Rightarrow> bool" where
  "allocation_ok rctx L \<longleftrightarrow>
     L \<subseteq> visited rctx \<and> no_interference rctx L \<and> ranges_in_bound rctx L
     \<and> occupancy_covers rctx L"

text \<open>What a successful call of \<^verbatim>\<open>assign_regs\<close> has checked and written.\<close>

lemma assign_regs_Inr:
  assumes "assign_regs rctx v reg = Inr rctx'"
  shows "reg < bound rctx (ra_class_for_index v)" "idx_type v = AGX_INDEX_NORMAL"
    "idx_value v \<notin> visited rctx" "1 \<le> ncomps rctx (idx_value v)"
    "\<not> bitset_test_range (used_regs rctx (ra_class_for_index v)) reg (ncomps rctx (idx_value v))"
    "ssa_to_reg rctx' = (ssa_to_reg rctx)(idx_value v := reg mod 2 ^ 16)"
    "ncomps rctx' = ncomps rctx" "classes rctx' = classes rctx" "bound rctx' = bound rctx"
    "visited rctx' = insert (idx_value v) (visited rctx)"
    "used_regs rctx' = (used_regs rctx)(ra_class_for_index v :=
        bitset_set_range (used_regs rctx (ra_class_for_index v)) reg (ncomps rctx (idx_value v)))"
  using assms
  by (auto simp: assign_regs_def Let_def set_ssa_to_reg_def split: if_splits)

text \<open>
  \<^verbatim>\<open>assign_regs\<close> asserts that the base register is below the bound, not the end of
  the range: alone, with a bound of 16 sub-units, it accepts a value of two sub-units at
  base 15. It is for the callers to pass a base that leaves room for the range.
\<close>

lemma assign_regs_checks_base_only:
  "\<exists>rctx'. assign_regs (ex_rctx\<lparr> ncomps := (\<lambda>_. 2) \<rparr>) (ssa_idx 0 AGX_SIZE_32 1 False) 15 = Inr rctx'
     \<and> \<not> ssa_to_reg rctx' 0 + ncomps rctx' 0 \<le> bound rctx' RA_GPR"
  by (simp add: assign_regs_def ex_rctx_def ssa_idx_def ra_class_for_index_def Let_def
      set_ssa_to_reg_def bitset_test_range_def)

text \<open>
  A successful \<^verbatim>\<open>assign_regs\<close> found the range free. When the base and the bound are
  multiples of the width, a base below the bound puts the whole range below it, and the
  invariant extends to the new value.
\<close>

lemma assign_regs_keeps_invariant:
  assumes ok: "allocation_ok rctx L"
    and r: "assign_regs rctx v reg = Inr rctx'"
    and cls: "classes rctx (idx_value v) = ra_class_for_index v"
    and b16: "bound rctx (ra_class_for_index v) \<le> 2 ^ 16"
    and al: "ncomps rctx (idx_value v) dvd reg"
            "ncomps rctx (idx_value v) dvd bound rctx (ra_class_for_index v)"
  shows "\<not> bitset_test_range (used_regs rctx (ra_class_for_index v)) reg (ncomps rctx (idx_value v))
       \<and> reg < bound rctx (ra_class_for_index v)
       \<and> reg + ncomps rctx (idx_value v) \<le> bound rctx (ra_class_for_index v)
       \<and> allocation_ok rctx' (insert (idx_value v) L)"
proof -
  let ?x = "idx_value v" and ?c = "ra_class_for_index v"
  let ?n = "ncomps rctx ?x"
  note a = assign_regs_Inr[OF r]
  have fresh: "?x \<notin> L" using ok a(3) by (auto simp: allocation_ok_def)
  have reg16: "reg mod 2 ^ 16 = reg" using a(1) b16 by simp
  have inb: "reg + ?n \<le> bound rctx ?c"
  proof -
    from al obtain j k where j: "reg = ?n * j" and k: "bound rctx ?c = ?n * k"
      by (auto simp: dvd_def)
    have "j < k" using a(1) a(4) j k by (cases "j < k") auto
    then have "?n * Suc j \<le> ?n * k" by (intro mult_le_mono2) simp
    then show ?thesis using j k by simp
  qed
  have s_old: "\<And>u. u \<in> L \<Longrightarrow> ssa_to_reg rctx' u = ssa_to_reg rctx u"
    using fresh a(6) by auto
  have r_old: "\<And>u. u \<in> L \<Longrightarrow> value_range rctx' u = value_range rctx u"
    using s_old a(7) by (simp add: value_range_def)
  have r_new: "value_range rctx' ?x = {reg ..< reg + ?n}"
    using a(6,7) reg16 by (simp add: value_range_def)
  have free: "{reg ..< reg + ?n} \<inter> used_regs rctx ?c = {}"
    using a(5) by (auto simp: bitset_test_range_def list_ex_iff)
  have cov_old: "\<And>u. u \<in> L \<Longrightarrow> value_range rctx u \<subseteq> used_regs rctx (classes rctx u)"
    using ok by (auto simp: allocation_ok_def occupancy_covers_def)
  have ni: "no_interference rctx' (insert ?x L)"
    unfolding no_interference_def
  proof (intro ballI impI)
    fix u w assume u: "u \<in> insert ?x L" and w: "w \<in> insert ?x L"
      and d: "u \<noteq> w \<and> classes rctx' u = classes rctx' w"
    have old: "\<And>p. p \<in> L \<Longrightarrow> classes rctx p = ?c \<Longrightarrow>
        value_range rctx' p \<inter> value_range rctx' ?x = {}"
    proof -
      fix p assume p: "p \<in> L" "classes rctx p = ?c"
      have "value_range rctx p \<subseteq> used_regs rctx ?c" using cov_old[OF p(1)] p(2) by simp
      with free show "value_range rctx' p \<inter> value_range rctx' ?x = {}"
        unfolding r_old[OF p(1)] r_new by blast
    qed
    show "value_range rctx' u \<inter> value_range rctx' w = {}"
    proof (cases "u = ?x")
      case True
      then have "w \<in> L" using w d by auto
      moreover have "classes rctx w = ?c" using d True cls a(8) by simp
      ultimately show ?thesis using old[of w] True by blast
    next
      case False
      then have uL: "u \<in> L" using u by simp
      show ?thesis
      proof (cases "w = ?x")
        case True
        have "classes rctx u = ?c" using d True cls a(8) by simp
        then show ?thesis using old[OF uL] True by simp
      next
        case False
        then have wL: "w \<in> L" using w by simp
        have "value_range rctx u \<inter> value_range rctx w = {}"
          using ok uL wL d a(8) by (auto simp: allocation_ok_def no_interference_def)
        then show ?thesis using r_old uL wL by simp
      qed
    qed
  qed
  have rb: "ranges_in_bound rctx' (insert ?x L)"
    unfolding ranges_in_bound_def
  proof
    fix u assume u: "u \<in> insert ?x L"
    show "ssa_to_reg rctx' u + ncomps rctx' u \<le> bound rctx' (classes rctx' u)"
    proof (cases "u = ?x")
      case True
      then show ?thesis using a(6,7,8,9) reg16 inb cls by simp
    next
      case False
      then have "u \<in> L" using u by simp
      then show ?thesis
        using ok s_old a(7,8,9) by (auto simp: allocation_ok_def ranges_in_bound_def)
    qed
  qed
  have oc: "occupancy_covers rctx' (insert ?x L)"
    unfolding occupancy_covers_def
  proof
    fix u assume u: "u \<in> insert ?x L"
    show "value_range rctx' u \<subseteq> used_regs rctx' (classes rctx' u)"
    proof (cases "u = ?x")
      case True
      then show ?thesis using r_new a(8,11) cls by (auto simp: bitset_set_range_def)
    next
      case False
      then have uL: "u \<in> L" using u by simp
      have "value_range rctx u \<subseteq> used_regs rctx (classes rctx u)" by (rule cov_old[OF uL])
      then show ?thesis
        unfolding r_old[OF uL] a(8,11) by (auto simp: bitset_set_range_def)
    qed
  qed
  have vis: "insert ?x L \<subseteq> visited rctx'"
    using ok a(10) by (auto simp: allocation_ok_def)
  show ?thesis using a(1,5) inb ni rb oc vis by (simp add: allocation_ok_def)
qed

text \<open>
  The first loop of the general path of \<^verbatim>\<open>agx_ra_assign_local\<close>: the range of every
  killed SSA source of the instruction is cleared in the occupancy bitset of its class.
\<close>

definition free_killed_src :: "agx_index \<Rightarrow> ra_ctx \<Rightarrow> ra_error + ra_ctx" where
  "free_killed_src s rctx =
     (if idx_kill s then
        (let cls = ra_class_for_index s;
             reg = ssa_to_reg rctx (idx_value s);
             count = ncomps rctx (idx_value s)
         in if \<not> 1 \<le> count then Inl (Assertion ''count >= 1'')
            else Inr (rctx\<lparr> used_regs := (used_regs rctx)
                          (cls := bitset_clear_range (used_regs rctx cls) reg count) \<rparr>))
      else Inr rctx)"

definition free_killed_sources :: "ra_ctx \<Rightarrow> agx_instr \<Rightarrow> ra_error + ra_ctx" where
  "free_killed_sources rctx I = fold_err free_killed_src (ssa_srcs I) rctx"

definition killed_values :: "agx_instr \<Rightarrow> nat set" where
  "killed_values I = set (map idx_value (filter idx_kill (ssa_srcs I)))"

lemma free_killed_src_fields:
  assumes "free_killed_src s rctx = Inr rctx'"
  shows "ssa_to_reg rctx' = ssa_to_reg rctx" "ncomps rctx' = ncomps rctx"
    "classes rctx' = classes rctx" "bound rctx' = bound rctx" "visited rctx' = visited rctx"
    "used_regs rctx' = (if idx_kill s then (used_regs rctx)(ra_class_for_index s :=
        bitset_clear_range (used_regs rctx (ra_class_for_index s))
          (ssa_to_reg rctx (idx_value s)) (ncomps rctx (idx_value s))) else used_regs rctx)"
  using assms by (auto simp: free_killed_src_def Let_def split: if_splits)

lemma free_killed_cover:
  assumes "fold_err free_killed_src srcs rctx = Inr rctx'"
    and "no_interference rctx L"
    and "\<forall>s\<in>set srcs. idx_kill s \<longrightarrow>
           idx_value s \<in> L \<and> classes rctx (idx_value s) = ra_class_for_index s"
    and "\<forall>u\<in>L - K. value_range rctx u \<subseteq> used_regs rctx (classes rctx u)"
  shows "ssa_to_reg rctx' = ssa_to_reg rctx \<and> ncomps rctx' = ncomps rctx
     \<and> classes rctx' = classes rctx \<and> bound rctx' = bound rctx \<and> visited rctx' = visited rctx
     \<and> (\<forall>u\<in>L - (K \<union> set (map idx_value (filter idx_kill srcs))).
            value_range rctx' u \<subseteq> used_regs rctx' (classes rctx' u))"
  using assms
proof (induction srcs arbitrary: rctx K)
  case Nil
  then show ?case by simp
next
  case (Cons s srcs)
  from Cons.prems(1) obtain rctx1 where s1: "free_killed_src s rctx = Inr rctx1"
    and f: "fold_err free_killed_src srcs rctx1 = Inr rctx'"
    by (auto split: sum.splits)
  note t = free_killed_src_fields[OF s1]
  let ?K1 = "if idx_kill s then insert (idx_value s) K else K"
  have vr: "\<And>u. value_range rctx1 u = value_range rctx u" by (simp add: value_range_def t)
  have ni1: "no_interference rctx1 L"
    using Cons.prems(2) by (simp add: no_interference_def vr t)
  have pre1: "\<forall>x\<in>set srcs. idx_kill x \<longrightarrow>
           idx_value x \<in> L \<and> classes rctx1 (idx_value x) = ra_class_for_index x"
    using Cons.prems(3) by (simp add: t)
  have cov1: "\<forall>u\<in>L - ?K1. value_range rctx1 u \<subseteq> used_regs rctx1 (classes rctx1 u)"
  proof
    fix u assume u: "u \<in> L - ?K1"
    then have uLK: "u \<in> L - K" by (auto split: if_splits)
    have cov: "value_range rctx u \<subseteq> used_regs rctx (classes rctx u)"
      using Cons.prems(4) uLK by blast
    show "value_range rctx1 u \<subseteq> used_regs rctx1 (classes rctx1 u)"
    proof (cases "idx_kill s \<and> classes rctx u = ra_class_for_index s")
      case False
      then show ?thesis using cov by (auto simp: vr t)
    next
      case True
      let ?k = "idx_value s"
      have kL: "?k \<in> L" and kc: "classes rctx ?k = ra_class_for_index s"
        using Cons.prems(3) True by simp_all
      have uk: "u \<noteq> ?k" using u True by auto
      have "value_range rctx u \<inter> value_range rctx ?k = {}"
        using Cons.prems(2) uLK kL uk True kc by (auto simp: no_interference_def)
      moreover have "value_range rctx ?k =
          set [ssa_to_reg rctx ?k ..< ssa_to_reg rctx ?k + ncomps rctx ?k]"
        by (simp add: value_range_def)
      ultimately show ?thesis
        using cov True by (auto simp: vr t bitset_clear_range_def)
    qed
  qed
  have eqK: "?K1 \<union> set (map idx_value (filter idx_kill srcs)) =
             K \<union> set (map idx_value (filter idx_kill (s # srcs)))"
    by auto
  note IH = Cons.IH[OF f ni1 pre1 cov1]
  have i1: "ssa_to_reg rctx' = ssa_to_reg rctx" "ncomps rctx' = ncomps rctx"
    "classes rctx' = classes rctx" "bound rctx' = bound rctx" "visited rctx' = visited rctx"
    using IH t by simp_all
  have i6: "\<forall>u\<in>L - (K \<union> set (map idx_value (filter idx_kill (s # srcs)))).
            value_range rctx' u \<subseteq> used_regs rctx' (classes rctx' u)"
    using IH unfolding eqK by blast
  show ?case using i1 i6 by blast
qed

lemma free_killed_sources_keeps_invariant:
  assumes ok: "allocation_ok rctx L"
    and r: "free_killed_sources rctx I = Inr rctx'"
    and pre: "\<forall>s\<in>set (ssa_srcs I). idx_kill s \<longrightarrow>
           idx_value s \<in> L \<and> classes rctx (idx_value s) = ra_class_for_index s"
  shows "allocation_ok rctx' (L - killed_values I)"
proof -
  have ni: "no_interference rctx L" and cov: "\<forall>u\<in>L - {}. value_range rctx u \<subseteq> used_regs rctx (classes rctx u)"
    using ok by (auto simp: allocation_ok_def occupancy_covers_def)
  note c = free_killed_cover[OF r[unfolded free_killed_sources_def] ni pre cov]
  have vr: "\<And>u. value_range rctx' u = value_range rctx u" using c by (simp add: value_range_def)
  have "L - killed_values I \<subseteq> visited rctx'"
    using ok c by (auto simp: allocation_ok_def)
  moreover have "no_interference rctx' (L - killed_values I)"
    using ni c by (auto simp: no_interference_def vr)
  moreover have "ranges_in_bound rctx' (L - killed_values I)"
    using ok c by (auto simp: allocation_ok_def ranges_in_bound_def)
  moreover have "occupancy_covers rctx' (L - killed_values I)"
    unfolding occupancy_covers_def killed_values_def using c by blast
  ultimately show ?thesis by (simp add: allocation_ok_def)
qed

text \<open>
  Both steps keep the invariant: \<^verbatim>\<open>assign_regs\<close> for a value recorded with its own
  class at a base that is, like the bound, a multiple of the width; and the freeing of
  the killed sources of an instruction.
\<close>

lemma allocation_steps_keep_invariant:
  assumes "allocation_ok rctx L"
  shows "(assign_regs rctx v reg = Inr rctx'
            \<and> classes rctx (idx_value v) = ra_class_for_index v
            \<and> bound rctx (ra_class_for_index v) \<le> 2 ^ 16
            \<and> ncomps rctx (idx_value v) dvd reg
            \<and> ncomps rctx (idx_value v) dvd bound rctx (ra_class_for_index v)
          \<longrightarrow> \<not> bitset_test_range (used_regs rctx (ra_class_for_index v)) reg
                   (ncomps rctx (idx_value v))
              \<and> reg < bound rctx (ra_class_for_index v)
              \<and> reg + ncomps rctx (idx_value v) \<le> bound rctx (ra_class_for_index v)
              \<and> allocation_ok rctx' (insert (idx_value v) L))
       \<and> (free_killed_sources rctx I = Inr rctx''
            \<and> (\<forall>s\<in>set (ssa_srcs I). idx_kill s \<longrightarrow>
                  idx_value s \<in> L \<and> classes rctx (idx_value s) = ra_class_for_index s)
          \<longrightarrow> allocation_ok rctx'' (L - killed_values I))"
  using assign_regs_keeps_invariant[OF assms, of v reg rctx']
    free_killed_sources_keeps_invariant[OF assms, of I rctx'']
  by blast

lemma allocation_steps_keep_invariant_example:
  "allocation_ok ex_rctx {}
   \<and> (\<exists>rctx'. assign_regs ex_rctx (ssa_idx 0 AGX_SIZE_16 1 False) 4 = Inr rctx'
         \<and> allocation_ok rctx' {0})"
proof -
  have ok: "allocation_ok ex_rctx {}"
    by (simp add: allocation_ok_def no_interference_def ranges_in_bound_def occupancy_covers_def)
  obtain rctx' where r: "assign_regs ex_rctx (ssa_idx 0 AGX_SIZE_16 1 False) 4 = Inr rctx'"
    by (simp add: assign_regs_def ex_rctx_def ssa_idx_def ra_class_for_index_def Let_def
        set_ssa_to_reg_def bitset_test_range_def)
  have h: "classes ex_rctx (idx_value (ssa_idx 0 AGX_SIZE_16 1 False))
             = ra_class_for_index (ssa_idx 0 AGX_SIZE_16 1 False)
       \<and> bound ex_rctx (ra_class_for_index (ssa_idx 0 AGX_SIZE_16 1 False)) \<le> 2 ^ 16
       \<and> ncomps ex_rctx (idx_value (ssa_idx 0 AGX_SIZE_16 1 False)) dvd 4
       \<and> ncomps ex_rctx (idx_value (ssa_idx 0 AGX_SIZE_16 1 False))
            dvd bound ex_rctx (ra_class_for_index (ssa_idx 0 AGX_SIZE_16 1 False))"
    by (simp add: ex_rctx_def ssa_idx_def ra_class_for_index_def)
  have "allocation_ok rctx' (insert (idx_value (ssa_idx 0 AGX_SIZE_16 1 False)) {})"
    using allocation_steps_keep_invariant[OF ok, of "ssa_idx 0 AGX_SIZE_16 1 False" 4 rctx'] r h
    by blast
  then have "allocation_ok rctx' {0}" by (simp add: ssa_idx_def)
  with ok r show ?thesis by blast
qed

section \<open>Splitting a killed vector in place\<close>




















section \<open>Lowering phis to parallel copies\<close>








text \<open>
  Modelled from the spec: the effect of a parallel copy, which
  \<^verbatim>\<open>agx_emit_parallel_copies\<close> (not in this file) lowers to moves. The spec gives it
  as: all reads of all its source operands happen logically before any write to any
  destination. A register file maps a class and a 16-bit unit to its contents; a copy
  moves as many units as the size of its source; the units of a source that is not a
  register are given by \<open>konst\<close> and do not depend on the register file.
\<close>

type_synonym regfile = "bool \<times> nat \<Rightarrow> nat"

definition copy_width :: "agx_copy \<Rightarrow> nat" where
  "copy_width c = agx_size_align_16 (idx_size (copy_src c))"

definition src_unit :: "(agx_index \<Rightarrow> nat \<Rightarrow> nat) \<Rightarrow> regfile \<Rightarrow> agx_index \<Rightarrow> nat \<Rightarrow> nat" where
  "src_unit konst rf s j =
     (if idx_type s = AGX_INDEX_REGISTER then rf (idx_memory s, idx_value s + j)
      else konst s j)"


definition write_copy ::
  "(agx_index \<Rightarrow> nat \<Rightarrow> nat) \<Rightarrow> regfile \<Rightarrow> regfile \<Rightarrow> agx_copy \<Rightarrow> regfile" where
  "write_copy konst rf0 rf c =
     (\<lambda>(m, r). if m = copy_dest_mem c \<and> copy_dest c \<le> r \<and> r < copy_dest c + copy_width c
                then src_unit konst rf0 (copy_src c) (r - copy_dest c)
                else rf (m, r))"













text \<open>
  An example: block 0 has the single successor 1, whose two phis exchange registers 2
  and 4 on the edge from block 0.
\<close>

definition reg16 :: "nat \<Rightarrow> agx_index" where
  "reg16 r = agx_register r AGX_SIZE_16"


definition ex_regfile :: regfile where
  "ex_regfile = (\<lambda>(m, r). 100 + r)"

definition ex_swap :: "agx_copy list" where
  "ex_swap = [ \<lparr> copy_dest = 2, copy_dest_mem = False, copy_src = reg16 4 \<rparr>,
               \<lparr> copy_dest = 4, copy_dest_mem = False, copy_src = reg16 2 \<rparr> ]"



text \<open>Moves made one after the other lose the value of register 4 on the same copies.\<close>

lemma sequential_moves_lose_data:
  "foldl (\<lambda>rf c. write_copy (\<lambda>s j. 0) rf rf c) ex_regfile ex_swap (False, 4) = ex_regfile (False, 4)"
  by (simp add: ex_swap_def write_copy_def src_unit_def copy_width_def reg16_def agx_register_def ex_regfile_def)

section \<open>High-water marks\<close>










end
